theory Spec2Isabelle
  imports Main "HOL-Library.Multiset"
begin

section \<open>Strings\<close>

text \<open>
  A JavaScript string is a sequence of UTF-16 code units. A code unit is modelled by its
  number, a string by the list of its code units, so that every character class of the
  patterns below (which read one code unit at a time) is a predicate on numbers.
  \<open>js\<close> turns an ASCII literal into such a list.
\<close>

type_synonym jsstring = "nat list"

definition js :: "string \<Rightarrow> jsstring" where
  "js s = map of_char s"

text \<open>
  \<open>\s\<close> of a pattern and \<open>String.prototype.trim\<close> use the same set: the WhiteSpace
  and the LineTerminator code points of ECMAScript. \<open>\d\<close> is \<open>[0-9]\<close>. The dot (no
  \<open>s\<close> flag) is every code unit but a line terminator.
\<close>

definition is_line_terminator :: "nat \<Rightarrow> bool" where
  "is_line_terminator c = (c = 10 \<or> c = 13 \<or> c = 8232 \<or> c = 8233)"

definition is_space :: "nat \<Rightarrow> bool" where
  "is_space c =
     (c = 9 \<or> c = 11 \<or> c = 12 \<or> c = 32 \<or> c = 160 \<or> c = 5760 \<or> (8192 \<le> c \<and> c \<le> 8202) \<or>
      c = 8239 \<or> c = 8287 \<or> c = 12288 \<or> c = 65279 \<or> is_line_terminator c)"

definition is_digit :: "nat \<Rightarrow> bool" where
  "is_digit c = (48 \<le> c \<and> c \<le> 57)"

definition dot :: "nat \<Rightarrow> bool" where
  "dot c = (\<not> is_line_terminator c)"

text \<open>
  Under the \<open>i\<close> flag (without \<open>u\<close>) two code units match when their canonical forms
  agree; the canonical form is the upper case, except that a code unit from 128 on is
  never mapped below 128. Every letter of the three patterns is an ASCII letter, so only
  the ASCII part of the mapping can make a comparison true.
\<close>

definition canonicalize :: "nat \<Rightarrow> nat" where
  "canonicalize c = (if 97 \<le> c \<and> c \<le> 122 then c - 32 else c)"

definition ieq :: "char \<Rightarrow> nat \<Rightarrow> bool" where
  "ieq a c = (canonicalize c = canonicalize (of_char a))"

text \<open>\<open>[smhd]\<close> under the \<open>i\<close> flag.\<close>

definition unit_letter :: "nat \<Rightarrow> bool" where
  "unit_letter c = (ieq CHR ''s'' c \<or> ieq CHR ''m'' c \<or> ieq CHR ''h'' c \<or> ieq CHR ''d'' c)"

text \<open>
  \<open>toLowerCase\<close> is only ever applied to the unit, one of the eight ASCII letters of
  \<open>unit_letter\<close> or the literal \<open>m\<close>; the ASCII part of the mapping is modelled.
\<close>

definition toLowerCase :: "jsstring \<Rightarrow> jsstring" where
  "toLowerCase s = map (\<lambda>c. if 65 \<le> c \<and> c \<le> 90 then c + 32 else c) s"

definition trim :: "jsstring \<Rightarrow> jsstring" where
  "trim s = rev (dropWhile is_space (rev (dropWhile is_space s)))"

text \<open>
  \<open>Number\<close> of a string of decimal digits, and the decimal text of a number as a
  template literal prints it. JavaScript numbers are IEEE doubles: on integers they are
  exact up to \<open>2^53 - 1\<close>, the range the model's integers stand for.
\<close>

definition Number :: "jsstring \<Rightarrow> nat" where
  "Number ds = foldl (\<lambda>n c. 10 * n + (c - 48)) 0 ds"

fun digits :: "nat \<Rightarrow> jsstring" where
  "digits n = (if n < 10 then [48 + n] else digits (n div 10) @ [48 + n mod 10])"

definition max_safe_integer :: int where
  "max_safe_integer = 9007199254740991"

text \<open>\<open>String.prototype.split\<close> with a one code unit separator.\<close>

fun split :: "nat \<Rightarrow> jsstring \<Rightarrow> jsstring list" where
  "split sep [] = [[]]"
| "split sep (c # cs) =
     (if c = sep then [] # split sep cs
      else (case split sep cs of p # ps \<Rightarrow> (c # p) # ps | [] \<Rightarrow> [[c]]))"

section \<open>Patterns\<close>

text \<open>
  The fragment of regular expressions the three patterns are written in: one code unit of
  a class, a greedy repetition of a class with its bounds (\<open>+\<close> is \<open>{1,}\<close>, \<open>*\<close> is
  \<open>{0,}\<close>), a greedy option, a capture group, the anchors and concatenation.
\<close>

datatype re =
    Cls "nat \<Rightarrow> bool"
  | Rep nat "nat option" "nat \<Rightarrow> bool"
  | Opt re
  | Grp nat re
  | Bol
  | Eol
  | Seq re re

text \<open>
  A matcher state: the index reached, the rest of the input there, and the captures
  (absent for a group that took no part in the match).
\<close>

type_synonym captures = "nat \<rightharpoonup> jsstring"
type_synonym mstate = "nat \<times> jsstring \<times> captures"

text \<open>
  The repetition first tries one more code unit and only then stops, which is the order a
  backtracking matcher tries a greedy quantifier in. \<open>n\<close> counts the code units taken.
\<close>

fun rep :: "(nat \<Rightarrow> bool) \<Rightarrow> nat \<Rightarrow> nat option \<Rightarrow> nat \<Rightarrow> jsstring \<Rightarrow> (nat \<times> jsstring) list" where
  "rep p lo hi n [] = (if lo \<le> n then [(n, [])] else [])"
| "rep p lo hi n (c # cs) =
     (if (case hi of None \<Rightarrow> True | Some h \<Rightarrow> n < h) \<and> p c then rep p lo hi (Suc n) cs else []) @
     (if lo \<le> n then [(n, c # cs)] else [])"

text \<open>
  \<open>matches r st\<close> lists every way \<open>r\<close> can match from \<open>st\<close>, in the order backtracking
  finds them: the head of the list is the match the engine reports.
\<close>

fun matches :: "re \<Rightarrow> mstate \<Rightarrow> mstate list" where
  "matches (Cls p) (i, s, g) =
     (case s of [] \<Rightarrow> [] | c # cs \<Rightarrow> if p c then [(Suc i, cs, g)] else [])"
| "matches (Rep lo hi p) (i, s, g) = map (\<lambda>(n, s'). (i + n, s', g)) (rep p lo hi 0 s)"
| "matches (Opt r) st = matches r st @ [st]"
| "matches (Grp k r) (i, s, g) =
     map (\<lambda>(j, s', g'). (j, s', g'(k \<mapsto> take (j - i) s))) (matches r (i, s, g))"
| "matches Bol (i, s, g) = (if i = 0 then [(i, s, g)] else [])"
| "matches Eol (i, s, g) = (if s = [] then [(i, s, g)] else [])"
| "matches (Seq a b) st = concat (map (matches b) (matches a st))"

text \<open>
  \<open>String.prototype.match\<close> with a pattern without the \<open>g\<close> flag: the first start index,
  from 0 on, at which the pattern matches, and the first match there.
\<close>

definition match :: "re \<Rightarrow> jsstring \<Rightarrow> captures option" where
  "match r input =
     (case concat (map (\<lambda>i. matches r (i, drop i input, Map.empty)) [0..<Suc (length input)]) of
        [] \<Rightarrow> None
      | (j, s, g) # _ \<Rightarrow> Some g)"

text \<open>
  Three notions used to state what a match is made of. \<open>groups r\<close> are the capture
  groups of \<open>r\<close>. \<open>consumed r u\<close> says that \<open>u\<close> is a text \<open>r\<close> can take from the
  input (the anchors take nothing). \<open>group_of k r\<close> is the body of group \<open>k\<close> when the
  group lies on every path through \<open>r\<close> and no later part of \<open>r\<close> can set it again.
  \<open>text_end k r\<close> says that \<open>r\<close> ends in \<open>(.+)$\<close> with \<open>k\<close> the number of this group.
\<close>

fun groups :: "re \<Rightarrow> nat set" where
  "groups (Grp k r) = insert k (groups r)"
| "groups (Opt r) = groups r"
| "groups (Seq a b) = groups a \<union> groups b"
| "groups _ = {}"

fun consumed :: "re \<Rightarrow> jsstring \<Rightarrow> bool" where
  "consumed (Cls p) u = (case u of [c] \<Rightarrow> p c | _ \<Rightarrow> False)"
| "consumed (Rep lo hi p) u =
     (list_all p u \<and> lo \<le> length u \<and> (case hi of None \<Rightarrow> True | Some h \<Rightarrow> length u \<le> h))"
| "consumed (Opt r) u = (u = [] \<or> consumed r u)"
| "consumed (Grp k r) u = consumed r u"
| "consumed Bol u = (u = [])"
| "consumed Eol u = (u = [])"
| "consumed (Seq a b) u = (\<exists>u1 u2. u = u1 @ u2 \<and> consumed a u1 \<and> consumed b u2)"

fun group_of :: "nat \<Rightarrow> re \<Rightarrow> re option" where
  "group_of k (Grp n r) = (if n = k then Some r else group_of k r)"
| "group_of k (Seq a b) =
     (case group_of k b of
        Some r \<Rightarrow> Some r
      | None \<Rightarrow> if k \<in> groups b then None else group_of k a)"
| "group_of k _ = None"

fun text_end :: "nat \<Rightarrow> re \<Rightarrow> bool" where
  "text_end k (Seq a b) = ((a = Grp k (Rep 1 None dot) \<and> b = Eol) \<or> text_end k b)"
| "text_end k _ = False"

section \<open>Parsing helpers\<close>

text \<open>
  What a parsing helper returns. A reminder copies the three fields, so it is declared
  below as an extension of this record.
\<close>

record parsed =
  dueAt :: int
  text' :: jsstring
  how :: jsstring

text \<open>
  The host's calendar: \<open>Date_local y m d h min\<close> is
  \<open>new Date(y, m, d, h, min, 0, 0).getTime()\<close>, and the three getters read the local
  year, month index and day of month of an instant. They depend on the time zone of the
  host and are parameters of the model.
\<close>

record host =
  Date_local :: "int \<Rightarrow> int \<Rightarrow> int \<Rightarrow> int \<Rightarrow> int \<Rightarrow> int"
  getFullYear :: "int \<Rightarrow> int"
  getMonth :: "int \<Rightarrow> int"
  getDate :: "int \<Rightarrow> int"

text \<open>\<^verbatim>\<open>/^in\s+(\d+)\s*([smhd])?\s+(.+)$/i\<close>\<close>

definition re_in :: re where
  "re_in =
     Seq Bol (Seq (Cls (ieq CHR ''i'')) (Seq (Cls (ieq CHR ''n''))
    (Seq (Rep 1 None is_space)
    (Seq (Grp 1 (Rep 1 None is_digit))
    (Seq (Rep 0 None is_space)
    (Seq (Opt (Grp 2 (Cls unit_letter)))
    (Seq (Rep 1 None is_space)
    (Seq (Grp 3 (Rep 1 None dot))
     Eol))))))))"

definition multipliers :: "jsstring \<rightharpoonup> int" where
  "multipliers =
     map_of [(js ''s'', 1000), (js ''m'', 60000), (js ''h'', 3600000), (js ''d'', 86400000)]"

text \<open>
  \<open>now\<close> is the reading of \<open>Date.now()\<close> inside the helper. Groups 1 and 3 lie on
  every path through the pattern, so the last branch is never taken.
\<close>

definition parseInSyntax :: "jsstring \<Rightarrow> int \<Rightarrow> parsed option" where
  "parseInSyntax input now =
     (case match re_in input of
        None \<Rightarrow> None
      | Some m \<Rightarrow>
          (case (m 1, m 3) of
             (Some m1, Some m3) \<Rightarrow>
               let amount = Number m1;
                   unit = toLowerCase (case m 2 of None \<Rightarrow> js ''m'' | Some u \<Rightarrow> u);
                   txt = trim m3;
                   ms = int amount * (case multipliers unit of Some k \<Rightarrow> k | None \<Rightarrow> 60000)
               in Some \<lparr>dueAt = now + ms, text' = txt, how = js ''in '' @ digits amount @ unit\<rparr>
           | _ \<Rightarrow> None))"

text \<open>\<^verbatim>\<open>/^at\s+(\d{4}-\d{2}-\d{2})\s+(\d{1,2}):(\d{2})\s+(.+)$/i\<close>\<close>

definition re_at :: re where
  "re_at =
     Seq Bol (Seq (Cls (ieq CHR ''a'')) (Seq (Cls (ieq CHR ''t''))
    (Seq (Rep 1 None is_space)
    (Seq (Grp 1 (Seq (Rep 4 (Some 4) is_digit) (Seq (Cls (ieq CHR ''-''))
                (Seq (Rep 2 (Some 2) is_digit) (Seq (Cls (ieq CHR ''-''))
                (Rep 2 (Some 2) is_digit))))))
    (Seq (Rep 1 None is_space)
    (Seq (Grp 2 (Rep 1 (Some 2) is_digit))
    (Seq (Cls (ieq CHR '':''))
    (Seq (Grp 3 (Rep 2 (Some 2) is_digit))
    (Seq (Rep 1 None is_space)
    (Seq (Grp 4 (Rep 1 None dot))
     Eol))))))))))"

definition parseAtSyntax :: "host \<Rightarrow> jsstring \<Rightarrow> parsed option" where
  "parseAtSyntax h input =
     (case match re_at input of
        None \<Rightarrow> None
      | Some m \<Rightarrow>
          (case (m 1, m 2, m 3, m 4) of
             (Some dateStr, Some hh, Some mm, Some textRaw) \<Rightarrow>
               (case map Number (split (of_char CHR ''-'') dateStr) of
                  [y, mo, d] \<Rightarrow>
                    let hour = Number hh;
                        min' = Number mm;
                        txt = trim textRaw;
                        due = Date_local h (int y) (int mo - 1) (int d) (int hour) (int min')
                    in Some \<lparr>dueAt = due, text' = txt,
                             how = js ''at '' @ dateStr @ js '' '' @ hh @ js '':'' @ mm\<rparr>
                | _ \<Rightarrow> None)
           | _ \<Rightarrow> None))"

text \<open>\<^verbatim>\<open>/^tomorrow\s+(\d{1,2}):(\d{2})\s+(.+)$/i\<close>\<close>

definition re_tomorrow :: re where
  "re_tomorrow =
     Seq Bol (Seq (Cls (ieq CHR ''t'')) (Seq (Cls (ieq CHR ''o'')) (Seq (Cls (ieq CHR ''m'')) 
    (Seq (Cls (ieq CHR ''o''))
    (Seq (Cls (ieq CHR ''r'')) (Seq (Cls (ieq CHR ''r''))
    (Seq (Cls (ieq CHR ''o'')) (Seq (Cls (ieq CHR ''w''))
    (Seq (Rep 1 None is_space)
    (Seq (Grp 1 (Rep 1 (Some 2) is_digit))
    (Seq (Cls (ieq CHR '':''))
    (Seq (Grp 2 (Rep 2 (Some 2) is_digit))
    (Seq (Rep 1 None is_space)
    (Seq (Grp 3 (Rep 1 None dot))
     Eol))))))))))))))"

definition parseTomorrowSyntax :: "host \<Rightarrow> jsstring \<Rightarrow> int \<Rightarrow> parsed option" where
  "parseTomorrowSyntax h input now =
     (case match re_tomorrow input of
        None \<Rightarrow> None
      | Some m \<Rightarrow>
          (case (m 1, m 2, m 3) of
             (Some hh, Some mm, Some textRaw) \<Rightarrow>
               let due = Date_local h (getFullYear h now) (getMonth h now) (getDate h now + 1)
                           (int (Number hh)) (int (Number mm));
                   txt = trim textRaw
               in Some \<lparr>dueAt = due, text' = txt, how = js ''tomorrow '' @ hh @ js '':'' @ mm\<rparr>
           | _ \<Rightarrow> None))"

text \<open>\<open>a || b || c\<close>: the first helper that returns an object.\<close>

definition parseWhenAndText :: "host \<Rightarrow> jsstring \<Rightarrow> int \<Rightarrow> parsed option" where
  "parseWhenAndText h input now =
     (case parseInSyntax input now of
        Some p \<Rightarrow> Some p
      | None \<Rightarrow>
          (case parseAtSyntax h input of
             Some p \<Rightarrow> Some p
           | None \<Rightarrow> parseTomorrowSyntax h input now))"

section \<open>The JSON file\<close>

text \<open>
  A JSON value as \<open>JSON.parse\<close> returns it (numbers restricted to the integers, the
  only numbers the bot writes).
\<close>

datatype json =
    JNull
  | JBool bool
  | JNumber int
  | JString jsstring
  | JArray "json list"
  | JObject "(jsstring \<times> json) list"

text \<open>
  The states of \<open>reminders.json\<close>, by what the two library calls of \<open>readDB\<close> do with
  it: \<open>fs.readFileSync\<close> throws when the file is missing or cannot be read, and
  \<open>JSON.parse\<close> throws a \<open>SyntaxError\<close> on text that is not JSON and returns the value
  of text that is.
\<close>

datatype medium = Missing | Unreadable | Malformed | WellFormed json

datatype exception = ENOENT | EACCES | SyntaxError

definition readFileSync_parse :: "medium \<Rightarrow> exception + json" where
  "readFileSync_parse f =
     (case f of
        Missing \<Rightarrow> Inl ENOENT
      | Unreadable \<Rightarrow> Inl EACCES
      | Malformed \<Rightarrow> Inl SyntaxError
      | WellFormed v \<Rightarrow> Inr v)"

definition empty_default :: json where
  "empty_default = JObject [(js ''lastId'', JNumber 0), (js ''reminders'', JArray [])]"

text \<open>
  \<open>readDB\<close>: the body of the \<open>try\<close>, and the \<open>catch\<close> that answers every exception
  with the empty default. The result is a sum so that "raises" can be said of it.
\<close>

definition readDB :: "medium \<Rightarrow> exception + json" where
  "readDB f = (case readFileSync_parse f of Inl e \<Rightarrow> Inr empty_default | Inr v \<Rightarrow> Inr v)"

section \<open>Reminders and the store\<close>

datatype status = Pending | Sent | Deleted

record reminder = parsed +
  id' :: int
  chatId :: int
  userId :: "int option"
  createdAt :: int
  status :: status
  sentAt :: "int option"
  deletedAt :: "int option"

record store =
  lastId :: int
  reminders :: "reminder list"

text \<open>
  The handlers below work on the value \<open>readDB\<close> returned, read as a store: the content
  of a file that \<open>writeDB\<close> wrote, or the empty default when there is no such file.
\<close>

definition empty_store :: store where
  "empty_store = \<lparr>lastId = 0, reminders = []\<rparr>"

text \<open>
  What a handler did: its answer, and the stores it handed to \<open>writeDB\<close>, in order.
\<close>

record 'a effect =
  reply :: 'a
  writes :: "store list"

section \<open>The commands\<close>

text \<open>
  The answers of \<open>/remind\<close>: the usage hint for an empty argument, "Couldn't parse
  that", "Missing reminder text", "That time is in the past", and "Reminder #id set".
\<close>

datatype remind_reply = NoDetails | ParseError | EmptyText | PastDue | Created int

text \<open>
  The handler after a successful parse. \<open>now_check\<close> and \<open>now_created\<close> are the
  readings of \<open>Date.now()\<close> in the past-due test and in \<open>createdAt\<close>.
\<close>

definition remind_parsed ::
    "store \<Rightarrow> int \<Rightarrow> int option \<Rightarrow> parsed \<Rightarrow> int \<Rightarrow> int \<Rightarrow> remind_reply effect" where
  "remind_parsed db chat user p now_check now_created =
     (if text' p = [] then \<lparr>reply = EmptyText, writes = []\<rparr>
      else if dueAt p \<le> now_check then \<lparr>reply = PastDue, writes = []\<rparr>
      else
        let n = lastId db + 1;
            r = \<lparr>dueAt = dueAt p, text' = text' p, how = how p,
                 id' = n, chatId = chat, userId = user, createdAt = now_created,
                 status = Pending, sentAt = None, deletedAt = None\<rparr>;
            db' = \<lparr>lastId = n, reminders = reminders db @ [r]\<rparr>
        in \<lparr>reply = Created n, writes = [db']\<rparr>)"

text \<open>
  \<open>/remind\<close>. \<open>ctx_match\<close> is the text after the command, \<open>db\<close> what \<open>readDB\<close>
  returns, \<open>now_parse\<close> the reading of the clock inside the parsing helper.
\<close>

definition cmd_remind ::
    "host \<Rightarrow> store \<Rightarrow> int \<Rightarrow> int option \<Rightarrow> jsstring \<Rightarrow> int \<Rightarrow> int \<Rightarrow> int \<Rightarrow> remind_reply effect" where
  "cmd_remind h db chat user ctx_match now_parse now_check now_created =
     (let arg = trim ctx_match in
      if arg = [] then \<lparr>reply = NoDetails, writes = []\<rparr>
      else
        (case parseWhenAndText h arg now_parse of
           None \<Rightarrow> \<lparr>reply = ParseError, writes = []\<rparr>
         | Some p \<Rightarrow> remind_parsed db chat user p now_check now_created))"

text \<open>\<open>/list\<close>: the items it prints. \<open>Array.prototype.sort\<close> is stable.\<close>

definition cmd_list :: "store \<Rightarrow> int \<Rightarrow> reminder list" where
  "cmd_list db chat =
     sort_key dueAt (filter (\<lambda>r. chatId r = chat \<and> status r = Pending) (reminders db))"



section \<open>The scheduler\<close>

text \<open>
  The transport is outside the program: the \<open>k\<close>-th call of \<open>sendMessage\<close> in a tick
  either resolves, and the clock then reads \<open>t\<close>, or rejects.
\<close>

datatype send_result = Resolved int | Rejected

definition is_due :: "int \<Rightarrow> reminder \<Rightarrow> bool" where
  "is_due now r = (status r = Pending \<and> dueAt r \<le> now)"

text \<open>
  \<open>due\<close> holds references to entries of \<open>db.reminders\<close>: the indices of the entries
  the filter keeps.
\<close>

definition due_refs :: "int \<Rightarrow> reminder list \<Rightarrow> nat list" where
  "due_refs now rs = filter (\<lambda>i. is_due now (rs ! i)) [0..<length rs]"

text \<open>
  The loop over \<open>due\<close>. \<open>k\<close> counts the calls of the transport so far; the result is
  \<open>db.reminders\<close> after the loop.
\<close>

fun send_all :: "(nat \<Rightarrow> send_result) \<Rightarrow> nat \<Rightarrow> nat list \<Rightarrow> reminder list \<Rightarrow> reminder list" where
  "send_all transport k [] rs = rs"
| "send_all transport k (i # due) rs =
     send_all transport (Suc k) due
       (case transport k of
          Resolved t \<Rightarrow> rs[i := (rs ! i)\<lparr>status := Sent, sentAt := Some t\<rparr>]
        | Rejected \<Rightarrow> rs)"

text \<open>
  One tick. Its answer is the list of the reminders handed to the transport, in order.
\<close>

definition tick :: "store \<Rightarrow> int \<Rightarrow> (nat \<Rightarrow> send_result) \<Rightarrow> reminder list effect" where
  "tick db now transport =
     (let due = due_refs now (reminders db);
          db' = db\<lparr>reminders := send_all transport 0 due (reminders db)\<rparr>
      in \<lparr>reply = map (\<lambda>i. reminders db ! i) due, writes = (if due \<noteq> [] then [db'] else [])\<rparr>)"

text \<open>
  The same loop read along \<open>db.reminders\<close> instead of along \<open>due\<close>: an entry is
  changed when it is due and the call made for it resolves. \<open>send_all_deliver\<close> below
  proves that \<open>send_all\<close> on the references computes this list.
\<close>

fun deliver :: "(nat \<Rightarrow> send_result) \<Rightarrow> int \<Rightarrow> nat \<Rightarrow> reminder list \<Rightarrow> reminder list" where
  "deliver transport now k [] = []"
| "deliver transport now k (r # rs) =
     (if is_due now r
      then (case transport k of
              Resolved t \<Rightarrow> r\<lparr>status := Sent, sentAt := Some t\<rparr>
            | Rejected \<Rightarrow> r) # deliver transport now (Suc k) rs
      else r # deliver transport now k rs)"

section \<open>The bot as a process\<close>

text \<open>
  The file after a handler: what the last \<open>writeDB\<close> left, or what it was.
\<close>

definition file_after :: "store \<Rightarrow> store list \<Rightarrow> store" where
  "file_after db ws = (if ws = [] then db else last ws)"










text \<open>
  A host for the examples: a calendar of months of 31 days, on which every instant reads
  as the 2nd of November 2026.
\<close>

definition example_host :: host where
  "example_host =
     \<lparr>Date_local = (\<lambda>y m d h mi. (((((y - 1970) * 12 + m) * 31 + d) * 24 + h) * 60 + mi) * 60000),
      getFullYear = (\<lambda>t. 2026), getMonth = (\<lambda>t. 10), getDate = (\<lambda>t. 2)\<rparr>"

text \<open>
  A store for the examples: a pending reminder of chat 7, a sent one of chat 7 and a
  pending one of chat 8; and a transport whose first call resolves (the clock then reads
  101) and whose later calls reject.
\<close>

definition example_reminder :: "int \<Rightarrow> int \<Rightarrow> int \<Rightarrow> status \<Rightarrow> reminder" where
  "example_reminder n chat due st =
     \<lparr>dueAt = due, text' = js ''x'', how = js ''in 1m'', id' = n, chatId = chat, userId = None,
      createdAt = 0, status = st, sentAt = None, deletedAt = None\<rparr>"

definition example_store :: store where
  "example_store =
     \<lparr>lastId = 3,
      reminders = [example_reminder 1 7 100 Pending, example_reminder 2 7 50 Sent,
                   example_reminder 3 8 80 Pending]\<rparr>"

definition example_transport :: "nat \<Rightarrow> send_result" where
  "example_transport k = (if k = 0 then Resolved 101 else Rejected)"



section \<open>Evaluating the patterns\<close>

lemmas char_classes = ieq_def canonicalize_def is_space_def is_line_terminator_def is_digit_def
  dot_def unit_letter_def

lemmas in_eval = parseInSyntax_def match_def re_in_def js_def char_classes Number_def trim_def
  toLowerCase_def multipliers_def Let_def

lemmas parse_eval = parseWhenAndText_def parseInSyntax_def parseAtSyntax_def
  parseTomorrowSyntax_def match_def re_in_def re_at_def re_tomorrow_def js_def char_classes
  Number_def trim_def toLowerCase_def multipliers_def Let_def

lemma js_eq_Nil [simp]: "(js s = []) = (s = [])"
  by (simp add: js_def)

lemma in_10m:
  "parseInSyntax (js ''in 10m Buy milk'') now =
     Some \<lparr>dueAt = now + 600000, text' = js ''Buy milk'', how = js ''in 10m''\<rparr>"
  by (simp add: in_eval)

lemma in_2:
  "parseInSyntax (js ''in 2 Call mom'') now =
     Some \<lparr>dueAt = now + 120000, text' = js ''Call mom'', how = js ''in 2m''\<rparr>"
  by (simp add: in_eval)

section \<open>The relative grammar on the documented examples\<close>

text \<open>
  Claim C8. \<open>parse("in 10m Buy milk", now)\<close> is due at \<open>now + 600000\<close> with the text
  "Buy milk" and the descriptor "in 10m"; without a unit the amount counts minutes, so
  \<open>parse("in 2 Call mom", now)\<close> is due at \<open>now + 120000\<close>.
\<close>

theorem relative_grammar_examples:
  "parseWhenAndText h (js ''in 10m Buy milk'') now =
     Some \<lparr>dueAt = now + 600000, text' = js ''Buy milk'', how = js ''in 10m''\<rparr> \<and>
   parseWhenAndText h (js ''in 2 Call mom'') now =
     Some \<lparr>dueAt = now + 120000, text' = js ''Call mom'', how = js ''in 2m''\<rparr>"
  by (simp add: parseWhenAndText_def in_10m in_2)

section \<open>Reading the file\<close>

text \<open>
  Claim C4, as the code has it. \<open>readDB\<close> never raises. It answers the empty default
  when the file is missing, unreadable or not JSON. Text that is JSON is answered as
  parsed, whatever its shape: nothing checks that the value is a store.
\<close>

theorem readDB_never_raises:
  "(\<exists>v. readDB f = Inr v) \<and>
   (f = Missing \<or> f = Unreadable \<or> f = Malformed \<longrightarrow> readDB f = Inr empty_default) \<and>
   (\<forall>v. f = WellFormed v \<longrightarrow> readDB f = Inr v)"
  by (cases f) (simp_all add: readDB_def readFileSync_parse_def)

theorem readDB_never_raises_witness:
  "readDB Malformed = Inr empty_default \<and> readDB (WellFormed (JArray [])) = Inr (JArray [])"
  using readDB_never_raises [of Malformed] readDB_never_raises [of "WellFormed (JArray [])"]
  by simp

text \<open>
  A file that holds the JSON text \<open>42\<close> is no store record, and \<open>readDB\<close> answers 42,
  not the empty default.
\<close>

theorem readDB_foreign_json_counterexample:
  "readDB (WellFormed (JNumber 42)) = Inr (JNumber 42) \<and> JNumber 42 \<noteq> empty_default"
  by (simp add: readDB_def readFileSync_parse_def empty_default_def)

section \<open>Listing\<close>

text \<open>
  Claim C9. \<open>/list\<close> shows exactly the reminders of the chat that are pending (each as
  often as the store holds it), in ascending order of \<open>dueAt\<close>.
\<close>

theorem list_pending_sorted:
  "mset (cmd_list db chat) =
     mset (filter (\<lambda>r. chatId r = chat \<and> status r = Pending) (reminders db)) \<and>
   sorted (map dueAt (cmd_list db chat))"
  by (simp add: cmd_list_def)

section \<open>The scheduler loop\<close>

text \<open>
  The loop over the references changes \<open>db.reminders\<close> exactly as \<open>deliver\<close> says.
\<close>

lemma due_refs_Cons:
  "due_refs now (r # rs) = (if is_due now r then [0] else []) @ map Suc (due_refs now rs)"
proof -
  have "[0..<Suc (length rs)] = 0 # map Suc [0..<length rs]"
    by (subst upt_rec) (simp add: map_Suc_upt)
  then show ?thesis
    by (simp add: due_refs_def filter_map comp_def)
qed

lemma due_refs_Nil [simp]: "due_refs now [] = []"
  by (simp add: due_refs_def)

lemma due_refs_entries: "map (\<lambda>i. rs ! i) (due_refs now rs) = filter (is_due now) rs"
  by (induction rs) (simp_all add: due_refs_Cons comp_def)

lemma due_refs_empty: "(due_refs now rs = []) = (filter (is_due now) rs = [])"
  by (metis due_refs_entries map_is_Nil_conv)

lemma send_all_shift:
  "send_all tr k (map (\<lambda>i. i + length pre) (due_refs now rs)) (pre @ rs) =
     pre @ deliver tr now k rs"
proof (induction rs arbitrary: pre k)
  case Nil
  then show ?case by simp
next
  case (Cons r rs)
  have shift: "map (\<lambda>i. i + length pre) (map Suc (due_refs now rs)) =
      map (\<lambda>i. i + length (pre @ [x])) (due_refs now rs)" for x
    by simp
  show ?case
  proof (cases "is_due now r")
    case False
    then show ?thesis
      using Cons.IH [where pre = "pre @ [r]" and k = k] by (simp add: due_refs_Cons comp_def)
  next
    case True
    show ?thesis
    proof (cases "tr k")
      case (Resolved t)
      then show ?thesis
        using True Cons.IH [where pre = "pre @ [r\<lparr>status := Sent, sentAt := Some t\<rparr>]" and k = "Suc k"]
        by (simp add: due_refs_Cons comp_def)
    next
      case Rejected
      then show ?thesis
        using True Cons.IH [where pre = "pre @ [r]" and k = "Suc k"] by (simp add: due_refs_Cons comp_def)
    qed
  qed
qed

lemma send_all_deliver: "send_all tr k (due_refs now rs) rs = deliver tr now k rs"
  using send_all_shift [of tr k "[]" now rs] by simp

lemma length_deliver [simp]: "length (deliver tr now k rs) = length rs"
  by (induction rs arbitrary: k) simp_all

lemma deliver_nth:
  "i < length rs \<Longrightarrow>
   deliver tr now k rs ! i =
     (if is_due now (rs ! i)
      then (case tr (k + length (filter (is_due now) (take i rs))) of
              Resolved t \<Rightarrow> (rs ! i)\<lparr>status := Sent, sentAt := Some t\<rparr>
            | Rejected \<Rightarrow> rs ! i)
      else rs ! i)"
proof (induction rs arbitrary: k i)
  case Nil
  then show ?case by simp
next
  case (Cons r rs)
  show ?case
  proof (cases i)
    case 0
    then show ?thesis by (simp split: send_result.split)
  next
    case (Suc j)
    then have "j < length rs" using Cons.prems by simp
    then show ?thesis
      using Cons.IH [where i = j and k = "Suc k"] Cons.IH [where i = j and k = k] Suc
      by (simp split: send_result.split)
  qed
qed

lemma deliver_none_due: "filter (is_due now) rs = [] \<Longrightarrow> deliver tr now k rs = rs"
  by (induction rs arbitrary: k) (simp_all split: if_splits)

lemma file_after_tick:
  "file_after db (writes (tick db now tr)) = db\<lparr>reminders := deliver tr now 0 (reminders db)\<rparr>"
  by (simp add: tick_def file_after_def Let_def send_all_deliver due_refs_empty deliver_none_due)

lemma reply_tick: "reply (tick db now tr) = filter (is_due now) (reminders db)"
  by (simp add: tick_def Let_def due_refs_entries)

lemma writes_tick:
  "writes (tick db now tr) =
     (if filter (is_due now) (reminders db) = [] then []
      else [db\<lparr>reminders := deliver tr now 0 (reminders db)\<rparr>])"
  by (simp add: tick_def Let_def send_all_deliver due_refs_empty)

lemma deliver_same_status:
  "map status (deliver tr now k rs) = map status rs \<Longrightarrow> deliver tr now k rs = rs"
  by (induction rs arbitrary: k) (auto simp: is_due_def split: if_splits send_result.splits)

lemma sent_not_due [simp]: "\<not> is_due now (r\<lparr>status := Sent, sentAt := t\<rparr>)"
  by (simp add: is_due_def)

lemma deliver_all_resolved:
  "\<forall>j < length (filter (is_due now) rs). tr (k + j) \<noteq> Rejected \<Longrightarrow>
   filter (is_due now) (deliver tr now k rs) = []"
proof (induction rs arbitrary: k)
  case Nil
  then show ?case by simp
next
  case (Cons r rs)
  show ?case
  proof (cases "is_due now r")
    case False
    then show ?thesis using Cons.IH [where k = k] Cons.prems by simp
  next
    case True
    have "\<forall>j<length (filter (is_due now) rs). tr (Suc k + j) \<noteq> Rejected"
      using Cons.prems True by auto
    then have rest: "filter (is_due now) (deliver tr now (Suc k) rs) = []"
      by (rule Cons.IH)
    have "tr k \<noteq> Rejected" using Cons.prems True by (auto dest: spec [of _ 0])
    then show ?thesis using True rest
      by (cases "tr k") simp_all
  qed
qed

section \<open>Delivery\<close>

text \<open>
  Claim C5, as the code has it. A tick hands to the transport exactly the reminders that
  are pending with \<open>dueAt \<le> now\<close>, in the order of the store, \<open>now\<close> being the
  reading of the clock at the start of the tick. The entry whose call resolves becomes
  \<open>sent\<close> with \<open>sentAt\<close> the reading \<open>t\<close> of the clock taken after that call has
  returned: the code reads the clock again for it, so \<open>sentAt\<close> is not the \<open>now\<close> of
  the test. The entry whose call rejects is left as it was in every field, and so is
  handed to the transport again by every later tick on the store this one leaves; every
  other entry is left as it was. \<open>k\<close> is the number of the call made for entry \<open>i\<close>:
  the number of due entries before it.
\<close>

theorem tick_delivery:
  "reply (tick db now tr) = filter (\<lambda>r. status r = Pending \<and> dueAt r \<le> now) (reminders db) \<and>
   length (reminders (file_after db (writes (tick db now tr)))) = length (reminders db) \<and>
   lastId (file_after db (writes (tick db now tr))) = lastId db \<and>
   (\<forall>i < length (reminders db).
      let r = reminders db ! i;
          r' = reminders (file_after db (writes (tick db now tr))) ! i;
          k = length (filter (\<lambda>r. status r = Pending \<and> dueAt r \<le> now) (take i (reminders db)))
      in (status r = Pending \<and> dueAt r \<le> now \<and> tr k = Resolved t \<longrightarrow>
            r' = r\<lparr>status := Sent, sentAt := Some t\<rparr>) \<and>
         (status r = Pending \<and> dueAt r \<le> now \<and> tr k = Rejected \<longrightarrow>
            r' = r \<and>
            (\<forall>now' tr'. now \<le> now' \<longrightarrow>
               r \<in> set (reply (tick (file_after db (writes (tick db now tr))) now' tr')))) \<and>
         (\<not> (status r = Pending \<and> dueAt r \<le> now) \<longrightarrow> r' = r))"
proof -
  let ?rs = "reminders db"
  let ?db' = "file_after db (writes (tick db now tr))"
  have due: "(\<lambda>r. status r = Pending \<and> dueAt r \<le> now) = is_due now"
    by (simp add: is_due_def fun_eq_iff)
  have rs': "reminders ?db' = deliver tr now 0 ?rs"
    by (simp add: file_after_tick)
  have attempted: "reply (tick db now tr) = filter (is_due now) ?rs"
    by (rule reply_tick)
  have len: "length (reminders ?db') = length ?rs"
    by (simp add: rs')
  have last: "lastId ?db' = lastId db"
    by (simp add: file_after_tick)
  have each: "let r = ?rs ! i; r' = reminders ?db' ! i;
                  k = length (filter (is_due now) (take i ?rs))
      in (is_due now r \<and> tr k = Resolved t \<longrightarrow> r' = r\<lparr>status := Sent, sentAt := Some t\<rparr>) \<and>
         (is_due now r \<and> tr k = Rejected \<longrightarrow>
            r' = r \<and>
            (\<forall>now' tr'. now \<le> now' \<longrightarrow> r \<in> set (reply (tick ?db' now' tr')))) \<and>
         (\<not> is_due now r \<longrightarrow> r' = r)"
    if i: "i < length ?rs" for i
  proof -
    let ?k = "length (filter (is_due now) (take i ?rs))"
    have nth: "reminders ?db' ! i =
        (if is_due now (?rs ! i)
         then (case tr ?k of Resolved t \<Rightarrow> (?rs ! i)\<lparr>status := Sent, sentAt := Some t\<rparr>
               | Rejected \<Rightarrow> ?rs ! i)
         else ?rs ! i)"
      using deliver_nth [OF i, of tr now 0] by (simp add: rs')
    have again: "?rs ! i \<in> set (reply (tick ?db' now' tr'))"
      if "is_due now (?rs ! i)" "tr ?k = Rejected" "now \<le> now'" for now' tr'
    proof -
      have "reminders ?db' ! i = ?rs ! i" using that nth by simp
      moreover have "i < length (reminders ?db')" using i len by simp
      ultimately have "?rs ! i \<in> set (reminders ?db')" by (metis nth_mem)
      moreover have "is_due now' (?rs ! i)" using that by (simp add: is_due_def)
      ultimately show ?thesis by (simp add: reply_tick)
    qed
    show ?thesis
      using nth again by (simp add: Let_def)
  qed
  show ?thesis
    using attempted len last each by (simp add: is_due_def [abs_def] Let_def)
qed

theorem tick_delivery_witness:
  "status (reminders example_store ! 0) = Pending \<and> dueAt (reminders example_store ! 0) \<le> 100 \<and>
   example_transport 0 = Resolved 101 \<and>
   status (reminders example_store ! 2) = Pending \<and> dueAt (reminders example_store ! 2) \<le> 100 \<and>
   example_transport 1 = Rejected \<and>
   reply (tick example_store 100 example_transport) =
     [example_reminder 1 7 100 Pending, example_reminder 3 8 80 Pending] \<and>
   reminders (file_after example_store (writes (tick example_store 100 example_transport))) =
     [(example_reminder 1 7 100 Pending)\<lparr>status := Sent, sentAt := Some 101\<rparr>,
      example_reminder 2 7 50 Sent, example_reminder 3 8 80 Pending] \<and>
   reply (tick (file_after example_store (writes (tick example_store 100 example_transport)))
            100 example_transport) = [example_reminder 3 8 80 Pending]"
  using tick_delivery [of example_store 100 example_transport 101]
  by (simp add: file_after_tick reply_tick example_store_def example_transport_def
      example_reminder_def is_due_def)

text \<open>
  A tick at \<open>now = 100\<close> whose first call returns when the clock reads 101 stores
  \<open>sentAt = 101\<close>.
\<close>

theorem sentAt_later_counterexample:
  "status (reminders example_store ! 0) = Pending \<and> dueAt (reminders example_store ! 0) \<le> 100 \<and>
   example_transport 0 = Resolved 101 \<and>
   status (reminders (file_after example_store (writes (tick example_store 100 example_transport))) ! 0) = Sent \<and>
   sentAt (reminders (file_after example_store (writes (tick example_store 100 example_transport))) ! 0) = Some 101 \<and>
   sentAt (reminders (file_after example_store (writes (tick example_store 100 example_transport))) ! 0) \<noteq> Some 100"
  by (simp add: writes_tick example_store_def example_reminder_def is_due_def
      example_transport_def file_after_def)

section \<open>Writes of a tick\<close>

text \<open>
  Claim C2, as the code has it. A tick calls \<open>writeDB\<close> exactly once when some reminder
  is due (pending, \<open>dueAt \<le> now\<close>) and not at all when none is: the test is
  \<open>due.length\<close>. So a tick that changed a status wrote once. A tick that changed no
  status leaves the content of the store as it was, and what it wrote, if it wrote, is
  that content. After a tick whose calls of the transport all resolved, a second tick at
  the same instant finds nothing due, writes nothing and leaves the store as it is.
\<close>

theorem tick_write_discipline:
  "length (writes (tick db now tr)) =
     (if \<exists>r \<in> set (reminders db). status r = Pending \<and> dueAt r \<le> now then 1 else 0) \<and>
   (map status (reminders (file_after db (writes (tick db now tr)))) \<noteq> map status (reminders db) \<longrightarrow>
      length (writes (tick db now tr)) = 1) \<and>
   (map status (reminders (file_after db (writes (tick db now tr)))) = map status (reminders db) \<longrightarrow>
      file_after db (writes (tick db now tr)) = db \<and>
      (\<forall>w \<in> set (writes (tick db now tr)). w = db)) \<and>
   ((\<forall>k < length (reply (tick db now tr)). tr k \<noteq> Rejected) \<longrightarrow>
      writes (tick (file_after db (writes (tick db now tr))) now tr') = [] \<and>
      file_after (file_after db (writes (tick db now tr)))
        (writes (tick (file_after db (writes (tick db now tr))) now tr')) =
      file_after db (writes (tick db now tr)))"
proof -
  let ?rs = "reminders db"
  let ?db' = "file_after db (writes (tick db now tr))"
  have due_iff: "(\<exists>r \<in> set ?rs. status r = Pending \<and> dueAt r \<le> now) = (filter (is_due now) ?rs \<noteq> [])"
    by (auto simp: filter_empty_conv is_due_def)
  have count: "length (writes (tick db now tr)) =
      (if \<exists>r \<in> set ?rs. status r = Pending \<and> dueAt r \<le> now then 1 else 0)"
    unfolding due_iff by (simp add: writes_tick)
  have same: "?db' = db \<and> (\<forall>w \<in> set (writes (tick db now tr)). w = db)"
    if "map status (reminders ?db') = map status ?rs"
  proof -
    have "map status (deliver tr now 0 ?rs) = map status ?rs"
      using that by (simp add: file_after_tick)
    then have "deliver tr now 0 ?rs = ?rs" by (rule deliver_same_status)
    then show ?thesis by (simp add: writes_tick file_after_def)
  qed
  have changed: "length (writes (tick db now tr)) = 1"
    if "map status (reminders ?db') \<noteq> map status ?rs"
  proof -
    have "deliver tr now 0 ?rs \<noteq> ?rs" using that by (auto simp: file_after_tick)
    then have "filter (is_due now) ?rs \<noteq> []" using deliver_none_due by blast
    then show ?thesis by (simp add: writes_tick)
  qed
  have second: "writes (tick ?db' now tr') = [] \<and> file_after ?db' (writes (tick ?db' now tr')) = ?db'"
    if "\<forall>k < length (reply (tick db now tr)). tr k \<noteq> Rejected"
  proof -
    have "\<forall>j < length (filter (is_due now) ?rs). tr (0 + j) \<noteq> Rejected"
      using that by (simp add: reply_tick)
    then have "filter (is_due now) (deliver tr now 0 ?rs) = []"
      by (rule deliver_all_resolved)
    then have "filter (is_due now) (reminders ?db') = []"
      by (simp add: file_after_tick)
    then have "writes (tick ?db' now tr') = []"
      by (simp add: writes_tick [of ?db'])
    then show ?thesis by (simp add: file_after_def)
  qed
  show ?thesis
    using count same changed second by blast
qed

theorem tick_write_discipline_witness:
  "length (writes (tick example_store 100 (\<lambda>k. Resolved 101))) = 1 \<and>
   writes (tick (file_after example_store (writes (tick example_store 100 (\<lambda>k. Resolved 101))))
             100 example_transport) = [] \<and>
   writes (tick example_store 10 example_transport) = []"
  using tick_write_discipline [of example_store 100 "\<lambda>k. Resolved 101" example_transport]
    tick_write_discipline [of example_store 10 example_transport example_transport]
  by (simp add: writes_tick file_after_def example_store_def example_reminder_def is_due_def)

text \<open>
  When the call for a due reminder rejects, no status changes and yet the tick writes;
  the tick after it, at the same instant and with the same outcome, writes again.
\<close>

theorem tick_rewrites_unchanged_store_counterexample:
  "map status (reminders (file_after example_store (writes (tick example_store 100 (\<lambda>k. Rejected))))) =
     map status (reminders example_store) \<and>
   length (writes (tick example_store 100 (\<lambda>k. Rejected))) = 1 \<and>
   length (writes (tick (file_after example_store (writes (tick example_store 100 (\<lambda>k. Rejected))))
      100 (\<lambda>k. Rejected))) = 1"
  by (simp add: writes_tick file_after_def example_store_def example_reminder_def is_due_def)

section \<open>Deleting\<close>








section \<open>Changes of status\<close>






section \<open>Allocation of ids\<close>

text \<open>
  Neither a tick nor \<open>/delete\<close> touches an id or \<open>lastId\<close> of the store it
  holds; a successful \<open>/remind\<close> appends one reminder whose id is the new \<open>lastId\<close>,
  and a failed one writes nothing. A tick writes the store it read at its start, so what
  it puts into the file has the ids of that moment.
\<close>

lemma ids_deliver: "map id' (deliver tr now k rs) = map id' rs"
  by (induction rs arbitrary: k) (simp_all split: send_result.split)

lemma ids_tick:
  "lastId (file_after db (writes (tick db now tr))) = lastId db \<and>
   map id' (reminders (file_after db (writes (tick db now tr)))) = map id' (reminders db)"
  by (simp add: file_after_tick ids_deliver)















section \<open>Greedy repetition and the order of matches\<close>

lemma space_not_digit: "is_space c \<Longrightarrow> \<not> is_digit c"
  by (auto simp: is_space_def is_line_terminator_def is_digit_def)

lemma space_not_unit: "is_space c \<Longrightarrow> \<not> unit_letter c"
  by (auto simp: is_space_def is_line_terminator_def unit_letter_def ieq_def canonicalize_def
      split: if_splits)

lemma digit_not_unit: "is_digit c \<Longrightarrow> \<not> unit_letter c"
  by (auto simp: is_digit_def unit_letter_def ieq_def canonicalize_def split: if_splits)

lemma not_space_dot: "\<not> is_space c \<Longrightarrow> dot c"
  by (simp add: is_space_def dot_def)

lemma rep_boundary:
  "s = [] \<or> \<not> p (hd s) \<Longrightarrow> rep p lo hi n s = (if lo \<le> n then [(n, s)] else [])"
  by (cases s) auto

lemma rep_run_head:
  "\<forall>c\<in>set u. p c \<Longrightarrow> v = [] \<or> \<not> p (hd v) \<Longrightarrow> lo \<le> n + length u \<Longrightarrow>
   \<exists>tl. rep p lo None n (u @ v) = (n + length u, v) # tl"
proof (induction u arbitrary: n)
  case Nil
  then show ?case by (simp add: rep_boundary)
next
  case (Cons a u)
  then obtain tl where "rep p lo None (Suc n) (u @ v) = (Suc n + length u, v) # tl"
    using Cons.IH [of "Suc n"] by auto
  then show ?case using Cons.prems by simp
qed

lemma rep_run_last2:
  "\<forall>c\<in>set u. p c \<Longrightarrow> p a \<Longrightarrow> v = [] \<or> \<not> p (hd v) \<Longrightarrow> lo \<le> n + length u \<Longrightarrow>
   \<exists>tl. rep p lo None n (u @ a # v) = (n + length u + 1, v) # (n + length u, a # v) # tl"
proof (induction u arbitrary: n)
  case Nil
  then show ?case by (simp add: rep_boundary)
next
  case (Cons b u)
  then obtain tl where
    "rep p lo None (Suc n) (u @ a # v) = (Suc n + length u + 1, v) # (Suc n + length u, a # v) # tl"
    using Cons.IH [of "Suc n"] by auto
  then show ?case using Cons.prems by simp
qed

lemma rep_sound:
  "(m, s') \<in> set (rep p lo hi n s) \<Longrightarrow>
   \<exists>u. s = u @ s' \<and> m = n + length u \<and> (\<forall>c\<in>set u. p c) \<and> lo \<le> m"
proof (induction s arbitrary: n)
  case Nil
  then show ?case by (auto split: if_splits)
next
  case (Cons c cs)
  from Cons.prems consider
    (more) "p c" "(m, s') \<in> set (rep p lo hi (Suc n) cs)" | (stop) "lo \<le> n" "m = n" "s' = c # cs"
    by (auto split: if_splits)
  then show ?case
  proof cases
    case more
    from Cons.IH [OF more(2)] obtain u where
      "cs = u @ s'" "m = Suc n + length u" "\<forall>c\<in>set u. p c" "lo \<le> m" by blast
    then have "c # cs = (c # u) @ s' \<and> m = n + length (c # u) \<and> (\<forall>x\<in>set (c # u). p x) \<and> lo \<le> m"
      using more(1) by simp
    then show ?thesis by blast
  next
    case stop
    then have "c # cs = [] @ s' \<and> m = n + length ([] :: nat list) \<and> (\<forall>x\<in>set ([] :: nat list). p x) \<and> lo \<le> m"
      by simp
    then show ?thesis by blast
  qed
qed

lemma rep_eol:
  "concat (map (\<lambda>x. if snd x = [] then [f (fst x)] else []) (rep p lo None n s)) =
     (if (\<forall>c\<in>set s. p c) \<and> lo \<le> n + length s then [f (n + length s)] else [])"
proof (induction s arbitrary: n)
  case Nil
  show ?case by simp
next
  case (Cons c cs)
  let ?F = "\<lambda>x. if snd x = [] then [f (fst x)] else []"
  have "concat (map ?F (rep p lo None n (c # cs))) =
      (if p c then concat (map ?F (rep p lo None (Suc n) cs)) else [])"
    by simp
  also have "\<dots> =
      (if p c then (if (\<forall>c\<in>set cs. p c) \<and> lo \<le> Suc n + length cs
                    then [f (Suc n + length cs)] else []) else [])"
    by (simp only: Cons.IH)
  also have "\<dots> =
      (if (\<forall>x\<in>set (c # cs). p x) \<and> lo \<le> n + length (c # cs)
       then [f (n + length (c # cs))] else [])"
    by simp
  finally show ?case .
qed

lemma text_group:
  "matches (Seq (Grp k (Rep lo None p)) Eol) (i, s, g) =
     (if (\<forall>c\<in>set s. p c) \<and> lo \<le> length s then [(i + length s, [], g(k \<mapsto> s))] else [])"
proof -
  let ?f = "\<lambda>m. (i + m, [] :: nat list, g(k \<mapsto> take m s))"
  have each: "(matches Eol \<circ> ((\<lambda>(j, s', g'). (j, s', g'(k \<mapsto> take (j - i) s))) \<circ>
      (\<lambda>(n, s'). (i + n, s', g)))) = (\<lambda>x. if snd x = [] then [?f (fst x)] else [])"
    by (rule ext) (simp add: case_prod_unfold)
  have "matches (Seq (Grp k (Rep lo None p)) Eol) (i, s, g) =
      concat (map (\<lambda>x. if snd x = [] then [?f (fst x)] else []) (rep p lo None 0 s))"
    by (simp only: matches.simps map_map each)
  also have "\<dots> = (if (\<forall>c\<in>set s. p c) \<and> lo \<le> 0 + length s then [?f (0 + length s)] else [])"
    by (rule rep_eol)
  also have "\<dots> = (if (\<forall>c\<in>set s. p c) \<and> lo \<le> length s then [(i + length s, [], g(k \<mapsto> s))] else [])"
    by simp
  finally show ?thesis .
qed

lemma match_anchored:
  "match (Seq Bol r) input =
     (case matches r (0, input, Map.empty) of [] \<Rightarrow> None | (j, s, g) # _ \<Rightarrow> Some g)"
proof -
  let ?F = "\<lambda>i. matches (Seq Bol r) (i, drop i input, Map.empty)"
  have upt: "[0..<Suc (length input)] = 0 # map Suc [0..<length input]"
    by (subst upt_rec) (simp add: map_Suc_upt)
  have later: "concat (map ?F (map Suc [0..<length input])) = []"
    by simp
  have first: "?F 0 = matches r (0, input, Map.empty)"
    by simp
  have "concat (map ?F [0..<Suc (length input)]) = matches r (0, input, Map.empty)"
    by (simp only: upt list.map concat.simps later first append_Nil2)
  then show ?thesis
    by (simp only: match_def)
qed


lemma rep_run_sound:
  "\<forall>c\<in>set u. p c \<Longrightarrow> v = [] \<or> \<not> p (hd v) \<Longrightarrow> (m, s') \<in> set (rep p lo hi n (u @ v)) \<Longrightarrow>
   \<exists>j\<le>length u. m = n + j \<and> s' = drop j u @ v"
proof (induction u arbitrary: n)
  case Nil
  then show ?case by (simp add: rep_boundary split: if_splits)
next
  case (Cons a u)
  from Cons.prems(3) consider
    (more) "(m, s') \<in> set (rep p lo hi (Suc n) (u @ v))" | (stop) "m = n" "s' = (a # u) @ v"
    by (auto split: if_splits)
  then show ?case
  proof cases
    case more
    from Cons.IH [OF _ Cons.prems(2) more] Cons.prems(1)
    obtain j where "j \<le> length u" "m = Suc n + j" "s' = drop j u @ v" by auto
    then have "Suc j \<le> length (a # u) \<and> m = n + Suc j \<and> s' = drop (Suc j) (a # u) @ v"
      by simp
    then show ?thesis by blast
  next
    case stop
    then have "0 \<le> length (a # u) \<and> m = n + 0 \<and> s' = drop 0 (a # u) @ v" by simp
    then show ?thesis by blast
  qed
qed

lemma Seq_head:
  "matches a st = y # ys \<Longrightarrow> matches b y = z # zs \<Longrightarrow> \<exists>tl. matches (Seq a b) st = z # tl"
  by simp

lemma Seq_head2:
  "matches a st = y1 # y2 # ys \<Longrightarrow> matches b y1 = [] \<Longrightarrow> matches b y2 = z # zs \<Longrightarrow>
   \<exists>tl. matches (Seq a b) st = z # tl"
  by simp

lemma Seq_fail: "\<forall>y\<in>set (matches a st). matches b y = [] \<Longrightarrow> matches (Seq a b) st = []"
  by simp

text \<open>The end of the three patterns: \<open>\s+(.+)$\<close>.\<close>

lemma text_tail_fail:
  "s = [] \<or> \<not> is_space (hd s) \<Longrightarrow>
   matches (Seq (Rep 1 None is_space) (Seq (Grp k (Rep 1 None dot)) Eol)) (i, s, g) = []"
  by (simp add: rep_boundary)

lemma text_tail_one:
  assumes "is_space a" and "t \<noteq> []" and "\<not> is_space (hd t)" and "\<forall>c\<in>set t. dot c"
  shows "\<exists>tl. matches (Seq (Rep 1 None is_space) (Seq (Grp k (Rep 1 None dot)) Eol)) (i, a # t, g) =
           (i + 1 + length t, [], g(k \<mapsto> t)) # tl"
proof -
  from rep_run_head [of "[a]" is_space t 1 0] assms
  obtain tl where "rep is_space 1 None 0 (a # t) = (1, t) # tl" by auto
  then have "matches (Rep 1 None is_space) (i, a # t, g) = (i + 1, t, g) # map (\<lambda>(n, s'). (i + n, s', g)) tl"
    by simp
  moreover have "matches (Seq (Grp k (Rep 1 None dot)) Eol) (i + 1, t, g) =
      (i + 1 + length t, [], g(k \<mapsto> t)) # []"
    using assms by (simp only: text_group) (cases t, simp_all)
  ultimately show ?thesis by (rule Seq_head)
qed

section \<open>The relative pattern, piece by piece\<close>

text \<open>The relative pattern from the unit on: \<open>([smhd])?\s+(.+)$\<close>.\<close>

lemma unit_tail_skip:
  "s = [] \<or> \<not> unit_letter (hd s) \<Longrightarrow>
   matches (Seq (Opt (Grp 2 (Cls unit_letter)))
      (Seq (Rep 1 None is_space) (Seq (Grp 3 (Rep 1 None dot)) Eol))) (i, s, g) =
   matches (Seq (Rep 1 None is_space) (Seq (Grp 3 (Rep 1 None dot)) Eol)) (i, s, g)"
  by (cases s) auto

text \<open>From the blanks after the amount on: \<open>\s*([smhd])?\s+(.+)$\<close>.\<close>

lemma amount_tail_fail:
  assumes "s = [] \<or> (\<not> is_space (hd s) \<and> \<not> unit_letter (hd s))"
  shows "matches (Seq (Rep 0 None is_space) (Seq (Opt (Grp 2 (Cls unit_letter)))
      (Seq (Rep 1 None is_space) (Seq (Grp 3 (Rep 1 None dot)) Eol)))) (i, s, g) = []"
proof -
  have "matches (Rep 0 None is_space) (i, s, g) = [(i, s, g)]"
    using assms by (auto simp: rep_boundary)
  moreover have "matches (Seq (Opt (Grp 2 (Cls unit_letter)))
      (Seq (Rep 1 None is_space) (Seq (Grp 3 (Rep 1 None dot)) Eol))) (i, s, g) =
      matches (Seq (Rep 1 None is_space) (Seq (Grp 3 (Rep 1 None dot)) Eol)) (i, s, g)"
    using assms by (intro unit_tail_skip) auto
  moreover have "matches (Seq (Rep 1 None is_space) (Seq (Grp 3 (Rep 1 None dot)) Eol)) (i, s, g) = []"
    using assms by (intro text_tail_fail) auto
  ultimately show ?thesis by (simp only: matches.simps list.map concat.simps append_Nil2)
qed

lemma amount_tail_separated:
  assumes w2: "w2 \<noteq> []" "\<forall>c\<in>set w2. is_space c"
    and x: "\<not> is_space x" "\<not> unit_letter x"
    and rest: "\<forall>c\<in>set rest. dot c"
  shows "\<exists>n tl. matches (Seq (Rep 0 None is_space) (Seq (Opt (Grp 2 (Cls unit_letter)))
      (Seq (Rep 1 None is_space) (Seq (Grp 3 (Rep 1 None dot)) Eol)))) (i, w2 @ x # rest, g) =
      (n, [], g(3 \<mapsto> x # rest)) # tl"
proof -
  let ?T = "Seq (Rep 1 None is_space) (Seq (Grp 3 (Rep 1 None dot)) Eol)"
  let ?U = "Seq (Opt (Grp 2 (Cls unit_letter))) ?T"
  let ?t = "x # rest"
  obtain u a where w2_eq: "w2 = u @ [a]"
    using w2(1) by (metis rev_exhaust)
  have a: "is_space a" and u: "\<forall>c\<in>set u. is_space c"
    using w2(2) w2_eq by auto
  have t: "\<forall>c\<in>set ?t. dot c"
    using x(1) rest by (simp add: not_space_dot)
  from rep_run_last2 [OF u a, of ?t 0 0] x(1)
  obtain tl where "rep is_space 0 None 0 (w2 @ ?t) = (length u + 1, ?t) # (length u, a # ?t) # tl"
    by (auto simp: w2_eq)
  then have cands: "matches (Rep 0 None is_space) (i, w2 @ ?t, g) =
      (i + (length u + 1), ?t, g) # (i + length u, a # ?t, g) # map (\<lambda>(n, s'). (i + n, s', g)) tl"
    by simp
  have first: "matches ?U (i + (length u + 1), ?t, g) = []"
    using x by (subst unit_tail_skip) (simp_all add: text_tail_fail)
  from text_tail_one [OF a _ _ t, of 3 "i + length u" g] x(1)
  obtain tl' where "matches ?T (i + length u, a # ?t, g) =
      (i + length u + 1 + length ?t, [], g(3 \<mapsto> ?t)) # tl'"
    by auto
  then have second: "matches ?U (i + length u, a # ?t, g) =
      (i + length u + 1 + length ?t, [], g(3 \<mapsto> ?t)) # tl'"
    using a by (subst unit_tail_skip) (simp_all add: space_not_unit)
  from Seq_head2 [OF cands first second] show ?thesis by blast
qed

text \<open>From the amount on: \<open>(\d+)\s*([smhd])?\s+(.+)$\<close>.\<close>

lemma amount_separated:
  assumes ds: "ds \<noteq> []" "\<forall>c\<in>set ds. is_digit c"
    and w2: "w2 \<noteq> []" "\<forall>c\<in>set w2. is_space c"
    and x: "\<not> is_space x" "\<not> unit_letter x"
    and rest: "\<forall>c\<in>set rest. dot c"
  shows "\<exists>n tl. matches (Seq (Grp 1 (Rep 1 None is_digit)) (Seq (Rep 0 None is_space)
      (Seq (Opt (Grp 2 (Cls unit_letter)))
      (Seq (Rep 1 None is_space) (Seq (Grp 3 (Rep 1 None dot)) Eol))))) (i, ds @ w2 @ x # rest, g) =
      (n, [], g(1 \<mapsto> ds, 3 \<mapsto> x # rest)) # tl"
proof -
  let ?s = "w2 @ x # rest"
  have "\<not> is_digit (hd ?s)"
    using w2 by (cases w2) (auto dest: space_not_digit)
  with rep_run_head [OF ds(2), of ?s 1 0] ds(1)
  obtain tl where "rep is_digit 1 None 0 (ds @ ?s) = (length ds, ?s) # tl"
    by (cases ds) auto
  then have cands: "matches (Grp 1 (Rep 1 None is_digit)) (i, ds @ ?s, g) =
      (i + length ds, ?s, g(1 \<mapsto> ds)) #
        map (\<lambda>(j, s', g'). (j, s', g'(1 \<mapsto> take (j - i) (ds @ ?s)))) (map (\<lambda>(n, s'). (i + n, s', g)) tl)"
    by simp
  from amount_tail_separated [OF w2 x rest, of "i + length ds" "g(1 \<mapsto> ds)"]
  obtain n tl' where "matches (Seq (Rep 0 None is_space) (Seq (Opt (Grp 2 (Cls unit_letter)))
      (Seq (Rep 1 None is_space) (Seq (Grp 3 (Rep 1 None dot)) Eol)))) (i + length ds, ?s, g(1 \<mapsto> ds)) =
      (n, [], g(1 \<mapsto> ds, 3 \<mapsto> x # rest)) # tl'"
    by blast
  from Seq_head [OF cands this] show ?thesis by blast
qed

lemma amount_attached_fail:
  assumes ds: "\<forall>c\<in>set ds. is_digit c"
    and x: "\<not> is_space x" "\<not> is_digit x" "\<not> unit_letter x"
  shows "matches (Seq (Grp 1 (Rep 1 None is_digit)) (Seq (Rep 0 None is_space)
      (Seq (Opt (Grp 2 (Cls unit_letter)))
      (Seq (Rep 1 None is_space) (Seq (Grp 3 (Rep 1 None dot)) Eol))))) (i, ds @ x # rest, g) = []"
proof (rule Seq_fail, rule ballI)
  fix y
  assume "y \<in> set (matches (Grp 1 (Rep 1 None is_digit)) (i, ds @ x # rest, g))"
  then obtain m s' where y: "y = (i + m, s', g(1 \<mapsto> take (i + m - i) (ds @ x # rest)))"
    and m: "(m, s') \<in> set (rep is_digit 1 None 0 (ds @ x # rest))"
    by auto
  from rep_run_sound [OF ds _ m] x(2)
  obtain j where j: "j \<le> length ds" "s' = drop j ds @ x # rest" by auto
  have "s' \<noteq> []" using j by simp
  moreover have "\<not> is_space (hd s') \<and> \<not> unit_letter (hd s')"
  proof (cases "drop j ds")
    case Nil
    then show ?thesis using j x by simp
  next
    case (Cons d ds')
    then have "d \<in> set ds" by (metis in_set_dropD list.set_intros(1))
    then have "is_digit d" using ds by blast
    then show ?thesis
      using j Cons space_not_digit digit_not_unit by auto
  qed
  ultimately show "matches (Seq (Rep 0 None is_space) (Seq (Opt (Grp 2 (Cls unit_letter)))
      (Seq (Rep 1 None is_space) (Seq (Grp 3 (Rep 1 None dot)) Eol)))) y = []"
    unfolding y by (intro amount_tail_fail) simp
qed

lemma match_at_start:
  "match (Seq Bol r) input =
     (case matches (Seq Bol r) (0, input, Map.empty) of [] \<Rightarrow> None | (j, s, g) # _ \<Rightarrow> Some g)"
  by (simp add: match_anchored)

lemma match_re_in:
  "match re_in input =
     (case matches re_in (0, input, Map.empty) of [] \<Rightarrow> None | (j, s, g) # _ \<Rightarrow> Some g)"
  unfolding re_in_def by (rule match_at_start)

lemma re_in_prefix:
  "matches re_in (0, js ''in'' @ s, g) =
   matches (Seq (Rep 1 None is_space) (Seq (Grp 1 (Rep 1 None is_digit)) (Seq (Rep 0 None is_space)
      (Seq (Opt (Grp 2 (Cls unit_letter)))
      (Seq (Rep 1 None is_space) (Seq (Grp 3 (Rep 1 None dot)) Eol)))))) (2, s, g)"
  by (simp add: re_in_def js_def ieq_def canonicalize_def)

lemma in_separated:
  assumes w1: "w1 \<noteq> []" "\<forall>c\<in>set w1. is_space c"
    and ds: "ds \<noteq> []" "\<forall>c\<in>set ds. is_digit c"
    and w2: "w2 \<noteq> []" "\<forall>c\<in>set w2. is_space c"
    and x: "\<not> is_space x" "\<not> unit_letter x"
    and rest: "\<forall>c\<in>set rest. dot c"
  shows "match re_in (js ''in'' @ w1 @ ds @ w2 @ x # rest) = Some [1 \<mapsto> ds, 3 \<mapsto> x # rest]"
proof -
  let ?s = "ds @ w2 @ x # rest"
  let ?g = "Map.empty :: captures"
  have "\<not> is_space (hd ?s)"
    using ds by (cases ds) (auto dest: space_not_digit)
  with rep_run_head [OF w1(2), of ?s 1 0] w1(1)
  obtain tl where "rep is_space 1 None 0 (w1 @ ?s) = (length w1, ?s) # tl"
    by (cases w1) auto
  then have cands: "matches (Rep 1 None is_space) (2, w1 @ ?s, ?g) =
      (2 + length w1, ?s, ?g) # map (\<lambda>(n, s'). (2 + n, s', ?g)) tl"
    by simp
  from amount_separated [OF ds w2 x rest, of "2 + length w1" ?g]
  obtain n tl' where "matches (Seq (Grp 1 (Rep 1 None is_digit)) (Seq (Rep 0 None is_space)
      (Seq (Opt (Grp 2 (Cls unit_letter)))
      (Seq (Rep 1 None is_space) (Seq (Grp 3 (Rep 1 None dot)) Eol))))) (2 + length w1, ?s, ?g) =
      (n, [], [1 \<mapsto> ds, 3 \<mapsto> x # rest]) # tl'"
    by blast
  from Seq_head [OF cands this] obtain tl'' where
    "matches re_in (0, js ''in'' @ w1 @ ?s, ?g) = (n, [], [1 \<mapsto> ds, 3 \<mapsto> x # rest]) # tl''"
    unfolding re_in_prefix by blast
  then show ?thesis
    by (simp only: match_re_in list.case prod.case)
qed

lemma in_attached:
  assumes w1: "\<forall>c\<in>set w1. is_space c"
    and ds: "ds \<noteq> []" "\<forall>c\<in>set ds. is_digit c"
    and x: "\<not> is_space x" "\<not> is_digit x" "\<not> unit_letter x"
  shows "match re_in (js ''in'' @ w1 @ ds @ x # rest) = None"
proof -
  let ?s = "ds @ x # rest"
  let ?g = "Map.empty :: captures"
  let ?A = "Seq (Grp 1 (Rep 1 None is_digit)) (Seq (Rep 0 None is_space)
      (Seq (Opt (Grp 2 (Cls unit_letter)))
      (Seq (Rep 1 None is_space) (Seq (Grp 3 (Rep 1 None dot)) Eol))))"
  have boundary: "?s = [] \<or> \<not> is_space (hd ?s)"
    using ds by (cases ds) (auto dest: space_not_digit)
  have "matches (Seq (Rep 1 None is_space) ?A) (2, w1 @ ?s, ?g) = []"
  proof (rule Seq_fail, rule ballI)
    fix y
    assume "y \<in> set (matches (Rep 1 None is_space) (2, w1 @ ?s, ?g))"
    then obtain m s' where y: "y = (2 + m, s', ?g)"
      and m: "(m, s') \<in> set (rep is_space 1 None 0 (w1 @ ?s))"
      by auto
    from rep_run_sound [OF w1 boundary m]
    obtain j where j: "j \<le> length w1" "s' = drop j w1 @ ?s" by auto
    show "matches ?A y = []"
    proof (cases "drop j w1")
      case Nil
      show ?thesis
        unfolding y j Nil append_Nil by (rule amount_attached_fail [OF ds(2) x])
    next
      case (Cons a u)
      then have "a \<in> set w1" by (metis in_set_dropD list.set_intros(1))
      then have "\<not> is_digit a" using w1 space_not_digit by blast
      then show ?thesis
        unfolding y j Cons by (simp add: rep_boundary)
    qed
  qed
  then have "matches re_in (0, js ''in'' @ w1 @ ?s, ?g) = []"
    unfolding re_in_prefix .
  then show ?thesis
    by (simp only: match_re_in list.case)
qed

lemma at_not_in: "parseAtSyntax h (js ''in'' @ s) = None"
  by (simp add: parseAtSyntax_def re_at_def match_anchored js_def ieq_def canonicalize_def)

lemma tomorrow_not_in: "parseTomorrowSyntax h (js ''in'' @ s) now = None"
  by (simp add: parseTomorrowSyntax_def re_tomorrow_def match_anchored js_def ieq_def canonicalize_def)

lemma toLowerCase_m: "toLowerCase (js ''m'') = js ''m''"
  by (simp add: toLowerCase_def js_def)

lemma multipliers_m: "multipliers (js ''m'') = Some 60000"
  by (simp add: multipliers_def js_def)

section \<open>A letter that is no unit\<close>

text \<open>
  Claim C3, as the code has it. The input is \<open>in\<close>, blanks, the digits \<open>ds\<close> of the
  amount, blanks \<open>w2\<close> (maybe none), a code unit \<open>x\<close> that is neither a blank nor one
  of the letters s, m, h, d (in either case), and the rest. When \<open>x\<close> follows the amount
  at once (and is no digit), the relative pattern does not match and the parse fails:
  the class \<open>[smhd]\<close> admits no other unit, so the fallback \<open>|| 60_000\<close> is never
  reached through one. When blanks separate \<open>x\<close> from the amount (and no line terminator
  follows), the pattern matches with the unit left out, so that the amount counts
  minutes, and \<open>x\<close> begins the text. The amount is taken in the range where the
  arithmetic of JavaScript numbers is exact.
\<close>

theorem unrecognized_unit_letter:
  assumes "w1 \<noteq> []" and "\<forall>c\<in>set w1. is_space c"
    and "ds \<noteq> []" and "\<forall>c\<in>set ds. is_digit c"
    and "\<forall>c\<in>set w2. is_space c"
    and "\<not> is_space x" and "\<not> unit_letter x"
  shows "(w2 = [] \<and> \<not> is_digit x \<longrightarrow>
            parseInSyntax (js ''in'' @ w1 @ ds @ w2 @ x # rest) now = None \<and>
            parseWhenAndText h (js ''in'' @ w1 @ ds @ w2 @ x # rest) now = None) \<and>
         (w2 \<noteq> [] \<and> (\<forall>c\<in>set rest. \<not> is_line_terminator c) \<and>
          0 \<le> now \<and> now + int (Number ds) * 60000 \<le> max_safe_integer \<longrightarrow>
            parseWhenAndText h (js ''in'' @ w1 @ ds @ w2 @ x # rest) now =
              Some \<lparr>dueAt = now + int (Number ds) * 60000, text' = trim (x # rest),
                    how = js ''in '' @ digits (Number ds) @ js ''m''\<rparr>)"
proof (intro conjI impI)
  assume a: "w2 = [] \<and> \<not> is_digit x"
  then have none: "match re_in (js ''in'' @ w1 @ ds @ w2 @ x # rest) = None"
    using in_attached [of w1 ds x rest] assms by simp
  then show "parseInSyntax (js ''in'' @ w1 @ ds @ w2 @ x # rest) now = None"
    by (simp add: parseInSyntax_def)
  then show "parseWhenAndText h (js ''in'' @ w1 @ ds @ w2 @ x # rest) now = None"
    by (simp add: parseWhenAndText_def at_not_in tomorrow_not_in)
next
  assume a: "w2 \<noteq> [] \<and> (\<forall>c\<in>set rest. \<not> is_line_terminator c) \<and>
    0 \<le> now \<and> now + int (Number ds) * 60000 \<le> max_safe_integer"
  then have "\<forall>c\<in>set rest. dot c" by (simp add: dot_def)
  with in_separated [of w1 ds w2 x rest] assms a
  have "match re_in (js ''in'' @ w1 @ ds @ w2 @ x # rest) = Some [1 \<mapsto> ds, 3 \<mapsto> x # rest]"
    by simp
  then have "parseInSyntax (js ''in'' @ w1 @ ds @ w2 @ x # rest) now =
      Some \<lparr>dueAt = now + int (Number ds) * 60000, text' = trim (x # rest),
            how = js ''in '' @ digits (Number ds) @ js ''m''\<rparr>"
    by (simp add: parseInSyntax_def Let_def toLowerCase_m multipliers_m del: digits.simps)
  then show "parseWhenAndText h (js ''in'' @ w1 @ ds @ w2 @ x # rest) now =
      Some \<lparr>dueAt = now + int (Number ds) * 60000, text' = trim (x # rest),
            how = js ''in '' @ digits (Number ds) @ js ''m''\<rparr>"
    by (simp add: parseWhenAndText_def)
qed

theorem unrecognized_unit_letter_witness:
  "list_all is_space (js '' '') \<and> list_all is_digit (js ''10'') \<and>
   \<not> is_space (of_char CHR ''x'') \<and> \<not> is_digit (of_char CHR ''x'') \<and>
   \<not> unit_letter (of_char CHR ''x'') \<and>
   list_all (\<lambda>c. \<not> is_line_terminator c) (js '' Buy milk'') \<and>
   0 + int (Number (js ''10'')) * 60000 \<le> max_safe_integer \<and>
   parseWhenAndText example_host (js ''in 10x Buy milk'') 0 = None \<and>
   parseWhenAndText example_host (js ''in 10 x Buy milk'') 0 =
     Some \<lparr>dueAt = 600000, text' = js ''x Buy milk'', how = js ''in 10m''\<rparr>"
  using unrecognized_unit_letter [of "js '' ''" "js ''10''" "[]" "of_char CHR ''x''" "js '' Buy milk''"
      0 example_host]
    unrecognized_unit_letter [of "js '' ''" "js ''10''" "js '' ''" "of_char CHR ''x''" "js '' Buy milk''"
      0 example_host]
  by (simp add: parse_eval max_safe_integer_def)

text \<open>"in 10x Buy milk" is of the form of the claim, and its parse fails.\<close>

theorem attached_letter_counterexample:
  "parseInSyntax (js ''in 10x Buy milk'') 0 = None \<and>
   parseWhenAndText example_host (js ''in 10x Buy milk'') 0 = None"
  by (simp add: parse_eval)

section \<open>What a match consumes and captures\<close>

lemma rep_bounded:
  "(m, s') \<in> set (rep p lo (Some h) n s) \<Longrightarrow> n \<le> h \<Longrightarrow> m \<le> h"
  by (induction s arbitrary: n) (auto split: if_splits)

lemma matches_consumed:
  "(j, s', g') \<in> set (matches r (i, s, g)) \<Longrightarrow> \<exists>u. s = u @ s' \<and> j = i + length u \<and> consumed r u"
proof (induction r arbitrary: i s g j s' g')
  case (Cls p)
  then show ?case by (cases s) (auto split: if_splits)
next
  case (Rep lo hi p)
  then obtain m where m: "(m, s') \<in> set (rep p lo hi 0 s)" and j: "j = i + m" by auto
  from rep_sound [OF m] obtain u where
    u: "s = u @ s'" "m = length u" "\<forall>c\<in>set u. p c" "lo \<le> m" by auto
  have "case hi of None \<Rightarrow> True | Some h \<Rightarrow> length u \<le> h"
    using m u(2) by (cases hi) (auto dest: rep_bounded)
  then have "s = u @ s' \<and> j = i + length u \<and> consumed (Rep lo hi p) u"
    using u j by (simp add: list_all_iff)
  then show ?case by blast
next
  case (Opt r)
  from Opt.prems consider "(j, s', g') \<in> set (matches r (i, s, g))" | "j = i" "s' = s"
    by auto
  then show ?case
  proof cases
    case 1
    from Opt.IH [OF this] show ?thesis by auto
  next
    case 2
    then have "s = [] @ s' \<and> j = i + length ([] :: nat list) \<and> consumed (Opt r) []" by simp
    then show ?thesis by blast
  qed
next
  case (Grp k r)
  then obtain g'' where "(j, s', g'') \<in> set (matches r (i, s, g))" by auto
  from Grp.IH [OF this] show ?case by auto
next
  case Bol
  then have "s = [] @ s' \<and> j = i + length ([] :: nat list) \<and> consumed Bol []"
    by (auto split: if_splits)
  then show ?case by blast
next
  case Eol
  then have "s = [] @ s' \<and> j = i + length ([] :: nat list) \<and> consumed Eol []"
    by (auto split: if_splits)
  then show ?case by blast
next
  case (Seq a b)
  then obtain i1 s1 g1 where y: "(i1, s1, g1) \<in> set (matches a (i, s, g))"
    and z: "(j, s', g') \<in> set (matches b (i1, s1, g1))"
    by auto
  from Seq.IH(1) [OF y] obtain u1 where u1: "s = u1 @ s1" "i1 = i + length u1" "consumed a u1"
    by blast
  from Seq.IH(2) [OF z] obtain u2 where u2: "s1 = u2 @ s'" "j = i1 + length u2" "consumed b u2"
    by blast
  have "s = (u1 @ u2) @ s' \<and> j = i + length (u1 @ u2) \<and> consumed (Seq a b) (u1 @ u2)"
    using u1 u2 by auto
  then show ?case by blast
qed

lemma matches_keeps:
  "(j, s', g') \<in> set (matches r (i, s, g)) \<Longrightarrow> k \<notin> groups r \<Longrightarrow> g' k = g k"
proof (induction r arbitrary: i s g j s' g')
  case (Cls p)
  then show ?case by (cases s) (auto split: if_splits)
next
  case (Seq a b)
  then obtain i1 s1 g1 where y: "(i1, s1, g1) \<in> set (matches a (i, s, g))"
    and z: "(j, s', g') \<in> set (matches b (i1, s1, g1))"
    by auto
  from Seq.IH(1) [OF y] Seq.IH(2) [OF z] Seq.prems(2) show ?case by simp
qed (auto split: if_splits)

lemma matches_group:
  "group_of k r = Some rk \<Longrightarrow> (j, s', g') \<in> set (matches r (i, s, g)) \<Longrightarrow>
   \<exists>u. consumed rk u \<and> g' k = Some u"
proof (induction r arbitrary: i s g j s' g')
  case (Grp n r)
  from Grp.prems(2) obtain g'' where inner: "(j, s', g'') \<in> set (matches r (i, s, g))"
    and g': "g' = g''(n \<mapsto> take (j - i) s)"
    by auto
  show ?case
  proof (cases "n = k")
    case True
    from matches_consumed [OF inner] obtain u where "s = u @ s'" "j = i + length u" "consumed r u"
      by blast
    then show ?thesis using True g' Grp.prems(1) by auto
  next
    case False
    then have "group_of k r = Some rk" using Grp.prems(1) by simp
    from Grp.IH [OF this inner] show ?thesis using False g' by simp
  qed
next
  case (Seq a b)
  from Seq.prems(2) obtain i1 s1 g1 where y: "(i1, s1, g1) \<in> set (matches a (i, s, g))"
    and z: "(j, s', g') \<in> set (matches b (i1, s1, g1))"
    by auto
  show ?case
  proof (cases "group_of k b")
    case (Some r)
    then have "group_of k b = Some rk" using Seq.prems(1) by simp
    from Seq.IH(2) [OF this z] show ?thesis .
  next
    case None
    then have k: "k \<notin> groups b" and a: "group_of k a = Some rk"
      using Seq.prems(1) by (auto split: if_splits)
    from Seq.IH(1) [OF a y] obtain u where "consumed rk u" "g1 k = Some u" by blast
    then show ?thesis using matches_keeps [OF z k] by auto
  qed
qed simp_all

lemma matches_text_end:
  "text_end k r \<Longrightarrow> (j, s', g') \<in> set (matches r (i, s, g)) \<Longrightarrow>
   s' = [] \<and> (\<exists>t u. g' k = Some t \<and> t \<noteq> [] \<and> s = u @ t)"
proof (induction r arbitrary: i s g)
  case (Seq a b)
  show ?case
  proof (cases "a = Grp k (Rep 1 None dot) \<and> b = Eol")
    case True
    then have "(j, s', g') \<in> set (matches (Seq (Grp k (Rep 1 None dot)) Eol) (i, s, g))"
      using Seq.prems(2) by simp
    then have "s' = [] \<and> g' k = Some s \<and> s \<noteq> [] \<and> s = [] @ s"
      by (simp only: text_group) (auto split: if_splits)
    then show ?thesis by blast
  next
    case False
    then have b: "text_end k b" using Seq.prems(1) by auto
    from Seq.prems(2) obtain i1 s1 g1 where y: "(i1, s1, g1) \<in> set (matches a (i, s, g))"
      and z: "(j, s', g') \<in> set (matches b (i1, s1, g1))"
      by auto
    from Seq.IH(2) [OF b z] obtain t u where t: "s' = []" "g' k = Some t" "t \<noteq> []" "s1 = u @ t"
      by blast
    from matches_consumed [OF y] obtain u0 where "s = u0 @ s1" by blast
    then have "s' = [] \<and> g' k = Some t \<and> t \<noteq> [] \<and> s = (u0 @ u) @ t" using t by simp
    then show ?thesis by blast
  qed
qed simp_all

lemma match_Some:
  "match r input = Some m \<Longrightarrow>
   \<exists>i j s'. (j, s', m) \<in> set (matches r (i, drop i input, Map.empty))"
proof -
  assume "match r input = Some m"
  then obtain j s' tl where
    "concat (map (\<lambda>i. matches r (i, drop i input, Map.empty)) [0..<Suc (length input)]) =
       (j, s', m) # tl"
    by (auto simp: match_def split: list.splits)
  then have "(j, s', m) \<in> set (concat (map (\<lambda>i. matches r (i, drop i input, Map.empty))
      [0..<Suc (length input)]))"
    by (metis list.set_intros(1))
  then show ?thesis by (simp del: upt_Suc) blast
qed

section \<open>The parsing helpers on a match\<close>

lemma text_end_re_in: "text_end 3 re_in"
  by (simp add: re_in_def)

lemma text_end_re_at: "text_end 4 re_at"
  by (simp add: re_at_def)

lemma text_end_re_tomorrow: "text_end 3 re_tomorrow"
  by (simp add: re_tomorrow_def)

lemma match_text:
  assumes "text_end k r" and "match r input = Some m"
  shows "\<exists>t u. m k = Some t \<and> t \<noteq> [] \<and> input = u @ t"
proof -
  from match_Some [OF assms(2)] obtain i j s' where
    "(j, s', m) \<in> set (matches r (i, drop i input, Map.empty))" by blast
  from matches_text_end [OF assms(1) this] obtain t u where
    "m k = Some t" "t \<noteq> []" "drop i input = u @ t" by blast
  then have "m k = Some t \<and> t \<noteq> [] \<and> input = (take i input @ u) @ t"
    by (metis append.assoc append_take_drop_id)
  then show ?thesis by blast
qed

lemma match_group:
  assumes "group_of k r = Some rk" and "match r input = Some m"
  shows "\<exists>u. consumed rk u \<and> m k = Some u"
proof -
  from match_Some [OF assms(2)] obtain i j s' where
    "(j, s', m) \<in> set (matches r (i, drop i input, Map.empty))" by blast
  from matches_group [OF assms(1) this] show ?thesis .
qed

lemma split_digits: "\<forall>c\<in>set a. is_digit c \<Longrightarrow> split 45 a = [a]"
  by (induction a) (auto simp: is_digit_def)

lemma split_digits_dash:
  "\<forall>c\<in>set a. is_digit c \<Longrightarrow> split 45 (a @ 45 # r) = a # split 45 r"
  by (induction a) (auto simp: is_digit_def)

lemma dash: "ieq CHR ''-'' c = (c = 45)"
  by (auto simp: ieq_def canonicalize_def)

lemma date_parts:
  assumes "consumed (Seq (Rep 4 (Some 4) is_digit) (Seq (Cls (ieq CHR ''-''))
      (Seq (Rep 2 (Some 2) is_digit) (Seq (Cls (ieq CHR ''-'')) (Rep 2 (Some 2) is_digit))))) d"
  shows "\<exists>y mo dd. split 45 d = [y, mo, dd]"
proof -
  from assms obtain y c1 mo c2 dd where
    d: "d = y @ c1 @ mo @ c2 @ dd"
    and y: "list_all is_digit y" and c1: "consumed (Cls (ieq CHR ''-'')) c1"
    and mo: "list_all is_digit mo" and c2: "consumed (Cls (ieq CHR ''-'')) c2"
    and dd: "list_all is_digit dd"
    by auto
  have "c1 = [45]" using c1 by (auto simp: dash split: list.splits)
  moreover have "c2 = [45]" using c2 by (auto simp: dash split: list.splits)
  ultimately have "split 45 d = [y, mo, dd]"
    using y mo dd d by (simp add: list_all_iff split_digits split_digits_dash)
  then show ?thesis by blast
qed

lemma parseInSyntax_matched:
  assumes "match re_in input = Some m"
  shows "\<exists>p t u. parseInSyntax input now = Some p \<and> text' p = trim t \<and> t \<noteq> [] \<and> input = u @ t"
proof -
  from match_text [OF text_end_re_in assms] obtain t u where
    t: "m 3 = Some t" "t \<noteq> []" "input = u @ t" by blast
  have "group_of 1 re_in = Some (Rep 1 None is_digit)"
    by (simp add: re_in_def)
  from match_group [OF this assms] obtain m1 where "m 1 = Some m1" by blast
  then have "\<exists>p. parseInSyntax input now = Some p \<and> text' p = trim t"
    using assms t by (simp add: parseInSyntax_def Let_def del: digits.simps)
  then show ?thesis using t by blast
qed

lemma parseTomorrowSyntax_matched:
  assumes "match re_tomorrow input = Some m"
  shows "\<exists>p t u. parseTomorrowSyntax h input now = Some p \<and> text' p = trim t \<and> t \<noteq> [] \<and>
    input = u @ t"
proof -
  from match_text [OF text_end_re_tomorrow assms] obtain t u where
    t: "m 3 = Some t" "t \<noteq> []" "input = u @ t" by blast
  have "group_of 1 re_tomorrow = Some (Rep 1 (Some 2) is_digit)"
    and "group_of 2 re_tomorrow = Some (Rep 2 (Some 2) is_digit)"
    by (simp_all add: re_tomorrow_def)
  from match_group [OF this(1) assms] match_group [OF this(2) assms]
  obtain hh mm where "m 1 = Some hh" "m 2 = Some mm" by blast
  then have "\<exists>p. parseTomorrowSyntax h input now = Some p \<and> text' p = trim t"
    using assms t by (simp add: parseTomorrowSyntax_def Let_def)
  then show ?thesis using t by blast
qed

lemma parseAtSyntax_matched:
  assumes "match re_at input = Some m"
  shows "\<exists>p t u. parseAtSyntax h input = Some p \<and> text' p = trim t \<and> t \<noteq> [] \<and> input = u @ t"
proof -
  from match_text [OF text_end_re_at assms] obtain t u where
    t: "m 4 = Some t" "t \<noteq> []" "input = u @ t" by blast
  have "group_of 1 re_at = Some (Seq (Rep 4 (Some 4) is_digit) (Seq (Cls (ieq CHR ''-''))
      (Seq (Rep 2 (Some 2) is_digit) (Seq (Cls (ieq CHR ''-'')) (Rep 2 (Some 2) is_digit)))))"
    and "group_of 2 re_at = Some (Rep 1 (Some 2) is_digit)"
    and "group_of 3 re_at = Some (Rep 2 (Some 2) is_digit)"
    by (simp_all add: re_at_def)
  from match_group [OF this(1) assms] match_group [OF this(2) assms] match_group [OF this(3) assms]
  obtain d hh mm where d: "consumed (Seq (Rep 4 (Some 4) is_digit) (Seq (Cls (ieq CHR ''-''))
      (Seq (Rep 2 (Some 2) is_digit) (Seq (Cls (ieq CHR ''-'')) (Rep 2 (Some 2) is_digit))))) d"
    and m: "m 1 = Some d" "m 2 = Some hh" "m 3 = Some mm"
    by blast
  from date_parts [OF d] obtain y mo dd where "split 45 d = [y, mo, dd]" by blast
  then have "\<exists>p. parseAtSyntax h input = Some p \<and> text' p = trim t"
    using assms t m by (simp add: parseAtSyntax_def Let_def)
  then show ?thesis using t by blast
qed

lemma parseInSyntax_None: "(parseInSyntax input now = None) = (match re_in input = None)"
  using parseInSyntax_matched [of input _ now]
  by (cases "match re_in input") (auto simp: parseInSyntax_def)

lemma parseAtSyntax_None: "(parseAtSyntax h input = None) = (match re_at input = None)"
  using parseAtSyntax_matched [of input _ h]
  by (cases "match re_at input") (auto simp: parseAtSyntax_def)

lemma parseTomorrowSyntax_None:
  "(parseTomorrowSyntax h input now = None) = (match re_tomorrow input = None)"
  using parseTomorrowSyntax_matched [of input _ h now]
  by (cases "match re_tomorrow input") (auto simp: parseTomorrowSyntax_def)

lemma parseWhenAndText_None:
  "(parseWhenAndText h input now = None) =
   (match re_in input = None \<and> match re_at input = None \<and> match re_tomorrow input = None)"
  by (simp only: parseInSyntax_None [symmetric, where now = now]
      parseAtSyntax_None [symmetric, where h = h]
      parseTomorrowSyntax_None [symmetric, where h = h and now = now] parseWhenAndText_def)
     (auto split: option.splits)

lemma parseWhenAndText_text:
  assumes "parseWhenAndText h input now = Some p"
  shows "\<exists>t u. text' p = trim t \<and> t \<noteq> [] \<and> input = u @ t"
proof (cases "match re_in input")
  case (Some m)
  from parseInSyntax_matched [OF this, of now] show ?thesis
    using assms by (auto simp: parseWhenAndText_def)
next
  case None
  then have no_in: "parseInSyntax input now = None" by (simp add: parseInSyntax_None)
  show ?thesis
  proof (cases "match re_at input")
    case (Some m)
    from parseAtSyntax_matched [OF this, of h] show ?thesis
      using assms no_in by (auto simp: parseWhenAndText_def)
  next
    case None
    then have no_at: "parseAtSyntax h input = None" by (simp add: parseAtSyntax_None)
    show ?thesis
    proof (cases "match re_tomorrow input")
      case (Some m)
      from parseTomorrowSyntax_matched [OF this, of h now] show ?thesis
        using assms no_in no_at by (auto simp: parseWhenAndText_def)
    next
      case None
      then have "parseTomorrowSyntax h input now = None" by (simp add: parseTomorrowSyntax_None)
      then show ?thesis
        using assms no_in no_at by (simp add: parseWhenAndText_def)
    qed
  qed
qed

lemma trim_ends_black: "trim s \<noteq> [] \<Longrightarrow> \<not> is_space (last (trim s))"
proof -
  assume "trim s \<noteq> []"
  then have ne: "dropWhile is_space (rev (dropWhile is_space s)) \<noteq> []"
    by (simp add: trim_def)
  then have "\<not> is_space (hd (dropWhile is_space (rev (dropWhile is_space s))))"
    by (rule hd_dropWhile)
  then show ?thesis using ne by (simp add: trim_def last_rev)
qed

lemma trim_keeps_black: "t \<noteq> [] \<Longrightarrow> \<not> is_space (last t) \<Longrightarrow> trim t \<noteq> []"
proof -
  assume t: "t \<noteq> []" "\<not> is_space (last t)"
  then have "last t \<in> set t" by simp
  then have "dropWhile is_space t \<noteq> []" using t(2) by (auto simp: dropWhile_eq_Nil_conv)
  moreover have "last (dropWhile is_space t) = last t"
    using t by (metis calculation last_appendR takeWhile_dropWhile_id)
  ultimately have "hd (rev (dropWhile is_space t)) = last t" "rev (dropWhile is_space t) \<noteq> []"
    by (simp_all add: hd_rev)
  then have "dropWhile is_space (rev (dropWhile is_space t)) \<noteq> []"
    using t(2) by (cases "rev (dropWhile is_space t)") auto
  then show ?thesis by (simp add: trim_def)
qed

lemma remind_never_EmptyText: "reply (cmd_remind h db chat user raw t1 t2 t3) \<noteq> EmptyText"
proof (cases "trim raw = []")
  case True
  then show ?thesis by (simp add: cmd_remind_def)
next
  case False
  show ?thesis
  proof (cases "parseWhenAndText h (trim raw) t1")
    case None
    then show ?thesis using False by (simp add: cmd_remind_def)
  next
    case (Some p)
    from parseWhenAndText_text [OF Some] obtain t u where
      t: "text' p = trim t" "t \<noteq> []" "trim raw = u @ t" by blast
    have "last t = last (trim raw)" using t by simp
    then have "\<not> is_space (last t)" using trim_ends_black [OF False] by simp
    then have "text' p \<noteq> []" using t trim_keeps_black by simp
    then show ?thesis
      using False Some by (simp add: cmd_remind_def remind_parsed_def Let_def)
  qed
qed

section \<open>A match with an empty text\<close>

lemma in_10m_blank:
  "parseInSyntax (js ''in 10m  '') now = Some \<lparr>dueAt = now + 600000, text' = [], how = js ''in 10m''\<rparr>"
  by (simp add: in_eval)

lemma trim_in_10m_blank: "trim (js ''in 10m  '') = js ''in 10m''"
  by (simp add: trim_def js_def is_space_def is_line_terminator_def)

lemma in_10m_bare: "parseWhenAndText h (js ''in 10m'') now = None"
  by (simp add: parse_eval)

text \<open>
  Claim C7, as the code has it. The parsing helpers return a match whatever its text
  trims to: "in 10m" followed by two blanks parses to a match with the empty text, and
  for every input the parse fails only when none of the three patterns matches. The
  test that follows the parse in \<open>/remind\<close> answers a match with an empty text with
  "Missing reminder text". But \<open>/remind\<close> trims its argument before it parses it, and
  the text of a match on a trimmed argument ends in the last code unit of the argument,
  which is no blank: \<open>/remind\<close> never gives that answer, and answers the input above
  with "Couldn't parse that".
\<close>

theorem empty_text_match:
  "parseWhenAndText h (js ''in 10m  '') now =
     Some \<lparr>dueAt = now + 600000, text' = [], how = js ''in 10m''\<rparr> \<and>
   (parseWhenAndText h input now = None) =
     (match re_in input = None \<and> match re_at input = None \<and> match re_tomorrow input = None) \<and>
   (text' p = [] \<longrightarrow>
      remind_parsed db chat user p now_check now_created = \<lparr>reply = EmptyText, writes = []\<rparr>) \<and>
   reply (cmd_remind h db chat user raw now_parse now_check now_created) \<noteq> EmptyText \<and>
   cmd_remind h db chat user (js ''in 10m  '') now_parse now_check now_created =
     \<lparr>reply = ParseError, writes = []\<rparr>"
proof -
  have "parseWhenAndText h (js ''in 10m  '') now =
      Some \<lparr>dueAt = now + 600000, text' = [], how = js ''in 10m''\<rparr>"
    by (simp add: parseWhenAndText_def in_10m_blank)
  moreover have "text' p = [] \<longrightarrow>
      remind_parsed db chat user p now_check now_created = \<lparr>reply = EmptyText, writes = []\<rparr>"
    by (simp add: remind_parsed_def)
  moreover have "cmd_remind h db chat user (js ''in 10m  '') now_parse now_check now_created =
      \<lparr>reply = ParseError, writes = []\<rparr>"
    by (simp add: cmd_remind_def trim_in_10m_blank in_10m_bare)
  ultimately show ?thesis
    using parseWhenAndText_None [of h input now]
      remind_never_EmptyText [of h db chat user raw now_parse now_check now_created]
    by blast
qed

theorem empty_text_match_witness:
  "text' \<lparr>dueAt = 600000, text' = [], how = js ''in 10m''\<rparr> = [] \<and>
   remind_parsed empty_store 7 None \<lparr>dueAt = 600000, text' = [], how = js ''in 10m''\<rparr> 0 0 =
     \<lparr>reply = EmptyText, writes = []\<rparr> \<and>
   parseWhenAndText example_host (js ''in 10m  '') 0 =
     Some \<lparr>dueAt = 600000, text' = [], how = js ''in 10m''\<rparr>"
  using empty_text_match [where h = example_host and now = 0 and db = empty_store and chat = 7
      and user = None and p = "\<lparr>dueAt = 600000, text' = [], how = js ''in 10m''\<rparr>"
      and now_check = 0 and now_created = 0]
  by simp

text \<open>
  No call of \<open>/remind\<close> is answered with "Missing reminder text"; the input whose parse
  has the empty text is answered with "Couldn't parse that".
\<close>

theorem remind_never_answers_EmptyText_counterexample:
  "parseWhenAndText example_host (js ''in 10m  '') 0 =
     Some \<lparr>dueAt = 600000, text' = [], how = js ''in 10m''\<rparr> \<and>
   reply (cmd_remind example_host empty_store 7 None (js ''in 10m  '') 0 0 0) = ParseError \<and>
   (\<forall>h db chat user raw now_parse now_check now_created.
      reply (cmd_remind h db chat user raw now_parse now_check now_created) \<noteq> EmptyText)"
proof -
  have "parseWhenAndText example_host (js ''in 10m  '') 0 =
      Some \<lparr>dueAt = 600000, text' = [], how = js ''in 10m''\<rparr>"
    by (simp add: parseWhenAndText_def in_10m_blank)
  moreover have "reply (cmd_remind example_host empty_store 7 None (js ''in 10m  '') 0 0 0) = ParseError"
    by (simp add: cmd_remind_def trim_in_10m_blank in_10m_bare)
  ultimately show ?thesis
    using remind_never_EmptyText by blast
qed

section \<open>The amount 0\<close>

text \<open>The relative pattern on an input that names its unit.\<close>

lemma text_tail_head:
  assumes "w \<noteq> []" and "\<forall>c\<in>set w. is_space c"
    and "t \<noteq> []" and "\<not> is_space (hd t)" and "\<forall>c\<in>set t. dot c"
  shows "\<exists>tl. matches (Seq (Rep 1 None is_space) (Seq (Grp k (Rep 1 None dot)) Eol)) (i, w @ t, g) =
           (i + length w + length t, [], g(k \<mapsto> t)) # tl"
proof -
  from rep_run_head [OF assms(2), of t 1 0] assms
  obtain tl where "rep is_space 1 None 0 (w @ t) = (length w, t) # tl"
    by (cases w) auto
  then have "matches (Rep 1 None is_space) (i, w @ t, g) =
      (i + length w, t, g) # map (\<lambda>(n, s'). (i + n, s', g)) tl"
    by simp
  moreover have "matches (Seq (Grp k (Rep 1 None dot)) Eol) (i + length w, t, g) =
      (i + length w + length t, [], g(k \<mapsto> t)) # []"
    using assms by (simp only: text_group) (cases t, simp_all)
  ultimately show ?thesis by (rule Seq_head)
qed

lemma unit_tail_given:
  assumes u: "unit_letter u"
    and w: "w \<noteq> []" "\<forall>c\<in>set w. is_space c"
    and t: "t \<noteq> []" "\<not> is_space (hd t)" "\<forall>c\<in>set t. dot c"
  shows "\<exists>n tl. matches (Seq (Opt (Grp 2 (Cls unit_letter)))
      (Seq (Rep 1 None is_space) (Seq (Grp 3 (Rep 1 None dot)) Eol))) (i, u # w @ t, g) =
      (n, [], g(2 \<mapsto> [u], 3 \<mapsto> t)) # tl"
proof -
  have cands: "matches (Opt (Grp 2 (Cls unit_letter))) (i, u # w @ t, g) =
      (Suc i, w @ t, g(2 \<mapsto> [u])) # [(i, u # w @ t, g)]"
    using u by simp
  from text_tail_head [OF w t, of 3 "Suc i" "g(2 \<mapsto> [u])"]
  obtain tl where "matches (Seq (Rep 1 None is_space) (Seq (Grp 3 (Rep 1 None dot)) Eol))
      (Suc i, w @ t, g(2 \<mapsto> [u])) = (Suc i + length w + length t, [], g(2 \<mapsto> [u], 3 \<mapsto> t)) # tl"
    by blast
  from Seq_head [OF cands this] show ?thesis by blast
qed

lemma amount_tail_unit:
  assumes w2: "\<forall>c\<in>set w2. is_space c"
    and u: "unit_letter u"
    and w: "w \<noteq> []" "\<forall>c\<in>set w. is_space c"
    and t: "t \<noteq> []" "\<not> is_space (hd t)" "\<forall>c\<in>set t. dot c"
  shows "\<exists>n tl. matches (Seq (Rep 0 None is_space) (Seq (Opt (Grp 2 (Cls unit_letter)))
      (Seq (Rep 1 None is_space) (Seq (Grp 3 (Rep 1 None dot)) Eol)))) (i, w2 @ u # w @ t, g) =
      (n, [], g(2 \<mapsto> [u], 3 \<mapsto> t)) # tl"
proof -
  have "\<not> is_space u" using u space_not_unit by blast
  with rep_run_head [OF w2, of "u # w @ t" 0 0]
  obtain tl where "rep is_space 0 None 0 (w2 @ u # w @ t) = (length w2, u # w @ t) # tl"
    by auto
  then have cands: "matches (Rep 0 None is_space) (i, w2 @ u # w @ t, g) =
      (i + length w2, u # w @ t, g) # map (\<lambda>(n, s'). (i + n, s', g)) tl"
    by simp
  from unit_tail_given [OF u w t, of "i + length w2" g]
  obtain n tl' where "matches (Seq (Opt (Grp 2 (Cls unit_letter)))
      (Seq (Rep 1 None is_space) (Seq (Grp 3 (Rep 1 None dot)) Eol))) (i + length w2, u # w @ t, g) =
      (n, [], g(2 \<mapsto> [u], 3 \<mapsto> t)) # tl'"
    by blast
  from Seq_head [OF cands this] show ?thesis by blast
qed

lemma amount_unit:
  assumes ds: "ds \<noteq> []" "\<forall>c\<in>set ds. is_digit c"
    and w2: "\<forall>c\<in>set w2. is_space c"
    and u: "unit_letter u"
    and w: "w \<noteq> []" "\<forall>c\<in>set w. is_space c"
    and t: "t \<noteq> []" "\<not> is_space (hd t)" "\<forall>c\<in>set t. dot c"
  shows "\<exists>n tl. matches (Seq (Grp 1 (Rep 1 None is_digit)) (Seq (Rep 0 None is_space)
      (Seq (Opt (Grp 2 (Cls unit_letter)))
      (Seq (Rep 1 None is_space) (Seq (Grp 3 (Rep 1 None dot)) Eol))))) (i, ds @ w2 @ u # w @ t, g) =
      (n, [], g(1 \<mapsto> ds, 2 \<mapsto> [u], 3 \<mapsto> t)) # tl"
proof -
  let ?s = "w2 @ u # w @ t"
  have "\<not> is_digit u" using u digit_not_unit by blast
  then have "\<not> is_digit (hd ?s)"
    using w2 by (cases w2) (auto dest: space_not_digit)
  with rep_run_head [OF ds(2), of ?s 1 0] ds(1)
  obtain tl where "rep is_digit 1 None 0 (ds @ ?s) = (length ds, ?s) # tl"
    by (cases ds) auto
  then have cands: "matches (Grp 1 (Rep 1 None is_digit)) (i, ds @ ?s, g) =
      (i + length ds, ?s, g(1 \<mapsto> ds)) #
        map (\<lambda>(j, s', g'). (j, s', g'(1 \<mapsto> take (j - i) (ds @ ?s)))) (map (\<lambda>(n, s'). (i + n, s', g)) tl)"
    by simp
  from amount_tail_unit [OF w2 u w t, of "i + length ds" "g(1 \<mapsto> ds)"]
  obtain n tl' where "matches (Seq (Rep 0 None is_space) (Seq (Opt (Grp 2 (Cls unit_letter)))
      (Seq (Rep 1 None is_space) (Seq (Grp 3 (Rep 1 None dot)) Eol)))) (i + length ds, ?s, g(1 \<mapsto> ds)) =
      (n, [], g(1 \<mapsto> ds, 2 \<mapsto> [u], 3 \<mapsto> t)) # tl'"
    by blast
  from Seq_head [OF cands this] show ?thesis by blast
qed

lemma in_unit:
  assumes w1: "w1 \<noteq> []" "\<forall>c\<in>set w1. is_space c"
    and ds: "ds \<noteq> []" "\<forall>c\<in>set ds. is_digit c"
    and w2: "\<forall>c\<in>set w2. is_space c"
    and u: "unit_letter u"
    and w: "w \<noteq> []" "\<forall>c\<in>set w. is_space c"
    and t: "t \<noteq> []" "\<not> is_space (hd t)" "\<forall>c\<in>set t. dot c"
  shows "match re_in (js ''in'' @ w1 @ ds @ w2 @ u # w @ t) = Some [1 \<mapsto> ds, 2 \<mapsto> [u], 3 \<mapsto> t]"
proof -
  let ?s = "ds @ w2 @ u # w @ t"
  let ?g = "Map.empty :: captures"
  have "\<not> is_space (hd ?s)"
    using ds by (cases ds) (auto dest: space_not_digit)
  with rep_run_head [OF w1(2), of ?s 1 0] w1(1)
  obtain tl where "rep is_space 1 None 0 (w1 @ ?s) = (length w1, ?s) # tl"
    by (cases w1) auto
  then have cands: "matches (Rep 1 None is_space) (2, w1 @ ?s, ?g) =
      (2 + length w1, ?s, ?g) # map (\<lambda>(n, s'). (2 + n, s', ?g)) tl"
    by simp
  from amount_unit [OF ds w2 u w t, of "2 + length w1" ?g]
  obtain n tl' where "matches (Seq (Grp 1 (Rep 1 None is_digit)) (Seq (Rep 0 None is_space)
      (Seq (Opt (Grp 2 (Cls unit_letter)))
      (Seq (Rep 1 None is_space) (Seq (Grp 3 (Rep 1 None dot)) Eol))))) (2 + length w1, ?s, ?g) =
      (n, [], [1 \<mapsto> ds, 2 \<mapsto> [u], 3 \<mapsto> t]) # tl'"
    by blast
  from Seq_head [OF cands this] obtain tl'' where
    "matches re_in (0, js ''in'' @ w1 @ ?s, ?g) = (n, [], [1 \<mapsto> ds, 2 \<mapsto> [u], 3 \<mapsto> t]) # tl''"
    unfolding re_in_prefix by blast
  then show ?thesis
    by (simp only: match_re_in list.case prod.case)
qed

text \<open>An amount written with zeros only is 0, and the reminder is then due at the reading
  of the clock the helper took.\<close>

lemma Number_zeros: "\<forall>c\<in>set zs. c = 48 \<Longrightarrow> Number zs = 0"
proof -
  have "\<forall>c\<in>set zs. c = 48 \<Longrightarrow> foldl (\<lambda>n c. 10 * n + (c - 48)) 0 zs = (0::nat)"
    by (induction zs) simp_all
  then show "\<forall>c\<in>set zs. c = 48 \<Longrightarrow> Number zs = 0"
    by (simp add: Number_def)
qed

lemma zeros_digits: "\<forall>c\<in>set zs. c = 48 \<Longrightarrow> \<forall>c\<in>set zs. is_digit c"
  by (auto simp: is_digit_def)

lemma parseInSyntax_zero:
  assumes "match re_in input = Some m" and "m 1 = Some ds" and "Number ds = 0"
  shows "\<exists>p. parseInSyntax input now = Some p \<and> dueAt p = now"
proof -
  from match_text [OF text_end_re_in assms(1)] obtain t where "m 3 = Some t" by blast
  then show ?thesis
    using assms by (simp add: parseInSyntax_def Let_def del: digits.simps)
qed

text \<open>\<open>/remind\<close> after a successful parse of its trimmed argument.\<close>

lemma parse_empty: "parseWhenAndText h [] now = None"
  by (simp add: parse_eval)

lemma cmd_remind_parsed:
  assumes "parseWhenAndText h (trim raw) t1 = Some p"
  shows "(dueAt p \<le> t2 \<longrightarrow> cmd_remind h db chat user raw t1 t2 t3 = \<lparr>reply = PastDue, writes = []\<rparr>) \<and>
         (t2 < dueAt p \<longrightarrow> reply (cmd_remind h db chat user raw t1 t2 t3) = Created (lastId db + 1))"
proof -
  have arg: "trim raw \<noteq> []"
    using assms parse_empty [of h t1] by auto
  have "reply (remind_parsed db chat user p t2 t3) \<noteq> EmptyText"
    using remind_never_EmptyText [of h db chat user raw t1 t2 t3] arg assms
    by (simp add: cmd_remind_def)
  then have "text' p \<noteq> []"
    by (auto simp: remind_parsed_def)
  then show ?thesis
    using arg assms by (simp add: cmd_remind_def remind_parsed_def Let_def)
qed

text \<open>
  Claim C10, as the code has it. The relative grammar accepts the amount 0. The input is
  \<open>in\<close>, blanks, the amount \<open>zs\<close> written with one or more zeros, and then either
  blanks (maybe none), a unit letter \<open>u\<close>, blanks and the text \<open>t\<close>, or blanks and a
  text \<open>t\<close> that does not begin with a unit letter; \<open>t\<close> begins with no blank and
  holds no line terminator. The parse succeeds, due at \<open>now\<close>, the reading of the clock
  inside the helper, with the descriptor \<open>in 0\<close> and the unit (\<open>m\<close> when none is
  given). \<open>/remind\<close> with such an argument reads the clock again for its test
  \<open>dueAt <= Date.now()\<close>: it answers that the time is in the past when that reading is not
  before the one of the helper, and creates the reminder when it is. Last, whatever the
  input, when the relative pattern matches it with an amount whose value is 0, the parse
  succeeds and is due at \<open>now\<close>.
\<close>

theorem zero_amount_past_due:
  assumes "w1 \<noteq> []" and "\<forall>c\<in>set w1. is_space c"
    and "zs \<noteq> []" and "\<forall>c\<in>set zs. c = 48"
    and "\<forall>c\<in>set w2. is_space c"
    and "w3 \<noteq> []" and "\<forall>c\<in>set w3. is_space c"
    and "t \<noteq> []" and "\<not> is_space (hd t)" and "\<forall>c\<in>set t. \<not> is_line_terminator c"
    and "input = js ''in'' @ w1 @ zs @ w2 @ u # w3 @ t \<and> unit_letter u \<and> unit = toLowerCase [u] \<or>
         input = js ''in'' @ w1 @ zs @ w3 @ t \<and> \<not> unit_letter (hd t) \<and> unit = js ''m''"
  shows "parseWhenAndText h input now =
           Some \<lparr>dueAt = now, text' = trim t, how = js ''in 0'' @ unit\<rparr> \<and>
         (trim raw = input \<and> now_parse \<le> now_check \<longrightarrow>
            cmd_remind h db chat user raw now_parse now_check now_created =
              \<lparr>reply = PastDue, writes = []\<rparr>) \<and>
         (trim raw = input \<and> now_check < now_parse \<longrightarrow>
            reply (cmd_remind h db chat user raw now_parse now_check now_created) =
              Created (lastId db + 1)) \<and>
         (match re_in input' = Some m \<and> m 1 = Some ds \<and> Number ds = 0 \<longrightarrow>
            (\<exists>p. parseWhenAndText h input' now = Some p \<and> dueAt p = now))"
proof -
  have zero: "Number zs = 0"
    using assms(4) by (rule Number_zeros)
  have zs: "\<forall>c\<in>set zs. is_digit c"
    using assms(4) by (rule zeros_digits)
  have t: "\<forall>c\<in>set t. dot c"
    using assms(10) by (simp add: dot_def)
  have parse: "parseInSyntax input now' =
      Some \<lparr>dueAt = now', text' = trim t, how = js ''in 0'' @ unit\<rparr>" for now'
    using assms(11)
  proof (elim disjE conjE)
    assume input: "input = js ''in'' @ w1 @ zs @ w2 @ u # w3 @ t"
      and u: "unit_letter u" and unit: "unit = toLowerCase [u]"
    have "match re_in input = Some [1 \<mapsto> zs, 2 \<mapsto> [u], 3 \<mapsto> t]"
      unfolding input
      by (rule in_unit [OF assms(1) assms(2) assms(3) zs assms(5) u assms(6) assms(7) assms(8) assms(9) t])
    then show ?thesis
      by (simp add: parseInSyntax_def zero unit js_def)
  next
    assume input: "input = js ''in'' @ w1 @ zs @ w3 @ t"
      and x: "\<not> unit_letter (hd t)" and unit: "unit = js ''m''"
    obtain x rest where t_eq: "t = x # rest"
      using assms(8) by (cases t) auto
    have "match re_in (js ''in'' @ w1 @ zs @ w3 @ x # rest) = Some [1 \<mapsto> zs, 3 \<mapsto> x # rest]"
      using in_separated [OF assms(1) assms(2) assms(3) zs assms(6) assms(7), of x rest]
        assms(9) x t by (simp add: t_eq)
    then have "match re_in input = Some [1 \<mapsto> zs, 3 \<mapsto> t]"
      by (simp add: input t_eq)
    then show ?thesis
      by (simp add: parseInSyntax_def zero unit toLowerCase_def js_def)
  qed
  then have whole: "parseWhenAndText h input now' =
      Some \<lparr>dueAt = now', text' = trim t, how = js ''in 0'' @ unit\<rparr>" for now'
    by (simp add: parseWhenAndText_def)
  have past: "cmd_remind h db chat user raw now_parse now_check now_created =
      \<lparr>reply = PastDue, writes = []\<rparr>" if "trim raw = input" "now_parse \<le> now_check"
    using cmd_remind_parsed [of h raw now_parse _ now_check db chat user now_created]
      whole [of now_parse] that by simp
  have future: "reply (cmd_remind h db chat user raw now_parse now_check now_created) =
      Created (lastId db + 1)" if "trim raw = input" "now_check < now_parse"
    using cmd_remind_parsed [of h raw now_parse _ now_check db chat user now_created]
      whole [of now_parse] that by simp
  have general: "\<exists>p. parseWhenAndText h input' now = Some p \<and> dueAt p = now"
    if "match re_in input' = Some m" "m 1 = Some ds" "Number ds = 0"
    using parseInSyntax_zero [OF that, of now] by (auto simp: parseWhenAndText_def)
  show ?thesis
    using whole [of now] past future general by blast
qed

theorem zero_amount_past_due_witness:
  "list_all is_space (js '' '') \<and> list_all (\<lambda>c. c = 48) (js ''0'') \<and>
   unit_letter (of_char CHR ''s'') \<and> \<not> is_space (hd (js ''x'')) \<and>
   list_all (\<lambda>c. \<not> is_line_terminator c) (js ''x'') \<and>
   js ''in 0s x'' = js ''in'' @ js '' '' @ js ''0'' @ [] @ of_char CHR ''s'' # js '' '' @ js ''x'' \<and>
   js ''s'' = toLowerCase [of_char CHR ''s''] \<and>
   trim (js ''  in 0s x '') = js ''in 0s x'' \<and> (5::int) \<le> 5 \<and>
   parseWhenAndText example_host (js ''in 0s x'') 5 =
     Some \<lparr>dueAt = 5, text' = js ''x'', how = js ''in 0s''\<rparr> \<and>
   cmd_remind example_host empty_store 7 None (js ''  in 0s x '') 5 5 6 =
     \<lparr>reply = PastDue, writes = []\<rparr> \<and>
   match re_in (js ''in 00 milk'') = Some [1 \<mapsto> js ''00'', 3 \<mapsto> js ''milk''] \<and>
   Number (js ''00'') = 0 \<and>
   map_option dueAt (parseWhenAndText example_host (js ''in 00 milk'') 5) = Some 5"
proof -
  have blank: "js '' '' \<noteq> []" "\<forall>c\<in>set (js '' ''). is_space c" "list_all is_space (js '' '')"
    by (simp_all add: js_def is_space_def)
  have zeros: "js ''0'' \<noteq> []" "\<forall>c\<in>set (js ''0''). c = 48" "list_all (\<lambda>c. c = 48) (js ''0'')"
    by (simp_all add: js_def)
  have none: "\<forall>c\<in>set ([] :: jsstring). is_space c"
    by simp
  have body: "js ''x'' \<noteq> []" "\<not> is_space (hd (js ''x''))"
    "\<forall>c\<in>set (js ''x''). \<not> is_line_terminator c"
    "list_all (\<lambda>c. \<not> is_line_terminator c) (js ''x'')"
    by (simp_all add: js_def is_space_def is_line_terminator_def)
  have letter: "unit_letter (of_char CHR ''s'')"
    by (simp add: unit_letter_def ieq_def canonicalize_def)
  have shape: "js ''in 0s x'' = js ''in'' @ js '' '' @ js ''0'' @ [] @ of_char CHR ''s'' # js '' '' @ js ''x''"
    by (simp add: js_def)
  have lower: "js ''s'' = toLowerCase [of_char CHR ''s'']"
    by (simp add: js_def toLowerCase_def)
  have trimmed: "trim (js ''  in 0s x '') = js ''in 0s x''" "trim (js ''x'') = js ''x''"
    by (simp_all add: trim_def js_def is_space_def is_line_terminator_def)
  have how: "js ''in 0'' @ js ''s'' = js ''in 0s''"
    by (simp add: js_def)
  have matched: "match re_in (js ''in 00 milk'') = Some [1 \<mapsto> js ''00'', 3 \<mapsto> js ''milk'']"
    by (simp add: match_def re_in_def js_def char_classes)
  have amount: "Number (js ''00'') = 0"
    by (simp add: Number_def js_def)
  have form: "js ''in 0s x'' = js ''in'' @ js '' '' @ js ''0'' @ [] @ of_char CHR ''s'' # js '' '' @ js ''x'' \<and>
      unit_letter (of_char CHR ''s'') \<and> js ''s'' = toLowerCase [of_char CHR ''s''] \<or>
      js ''in 0s x'' = js ''in'' @ js '' '' @ js ''0'' @ js '' '' @ js ''x'' \<and>
      \<not> unit_letter (hd (js ''x'')) \<and> js ''s'' = js ''m''"
    using shape letter lower by (intro disjI1 conjI)
  note result = zero_amount_past_due [where ?w1.0 = "js '' ''" and zs = "js ''0''" and ?w2.0 = "[]"
      and ?w3.0 = "js '' ''" and t = "js ''x''" and input = "js ''in 0s x''"
      and u = "of_char CHR ''s''" and unit = "js ''s''" and h = example_host and now = 5
      and raw = "js ''  in 0s x ''" and now_parse = 5 and now_check = 5 and db = empty_store
      and chat = 7 and user = None and now_created = 6 and input' = "js ''in 00 milk''"
      and m = "[1 \<mapsto> js ''00'', 3 \<mapsto> js ''milk'']" and ds = "js ''00''",
      OF blank(1) blank(2) zeros(1) zeros(2) none blank(1) blank(2) body(1) body(2) body(3) form]
  have parsed: "parseWhenAndText example_host (js ''in 0s x'') 5 =
      Some \<lparr>dueAt = 5, text' = js ''x'', how = js ''in 0s''\<rparr>"
    using result [THEN conjunct1] by (simp only: trimmed how)
  have past: "cmd_remind example_host empty_store 7 None (js ''  in 0s x '') 5 5 6 =
      \<lparr>reply = PastDue, writes = []\<rparr>"
    using result [THEN conjunct2, THEN conjunct1] trimmed(1) by simp
  have amount_group: "[1 \<mapsto> js ''00'', 3 \<mapsto> js ''milk''] (1::nat) = Some (js ''00'')"
    by simp
  have "\<exists>p. parseWhenAndText example_host (js ''in 00 milk'') 5 = Some p \<and> dueAt p = 5"
    using result [THEN conjunct2, THEN conjunct2, THEN conjunct2] matched amount amount_group
    by blast
  then have general: "map_option dueAt (parseWhenAndText example_host (js ''in 00 milk'') 5) = Some 5"
    by auto
  show ?thesis
    using blank(3) zeros(3) letter body(2) body(4) shape lower trimmed(1) parsed past matched amount general
    by simp
qed

text \<open>
  When the clock is set back between the two readings, "in 0s x" is not rejected: the
  reminder is created, due at the reading of the helper.
\<close>

theorem zero_amount_created_counterexample:
  "parseWhenAndText example_host (js ''in 0s x'') 5 =
     Some \<lparr>dueAt = 5, text' = js ''x'', how = js ''in 0s''\<rparr> \<and>
   cmd_remind example_host empty_store 7 None (js ''in 0s x'') 5 4 4 =
     \<lparr>reply = Created 1,
      writes = [\<lparr>lastId = 1, reminders =
        [\<lparr>dueAt = 5, text' = js ''x'', how = js ''in 0s'', id' = 1, chatId = 7, userId = None,
          createdAt = 4, status = Pending, sentAt = None, deletedAt = None\<rparr>]\<rparr>]\<rparr>"
  by (simp add: cmd_remind_def remind_parsed_def empty_store_def parse_eval)

end
